theory Spec2Isabelle
  imports Main "HOL-Library.Word" "HOL-Library.Monad_Syntax"
begin

unbundle bit_operations_syntax

section \<open>Data model\<close>

text \<open>
  The program is a single C++ file, \<^verbatim>\<open>tiles2048.cpp\<close>. Machine integers are words of
  their width; a call that does not return normally (an \<^verbatim>\<open>assert\<close> aborts the program, or
  a loop never ends) has the value \<open>None\<close>, every normal return is \<open>Some\<close>.
\<close>

type_synonym u8 = "8 word"
type_synonym u32 = "32 word"
type_synonym u64 = "64 word"

text \<open>A C \<^verbatim>\<open>int\<close> that the code does arithmetic on is a word of 32 bits, read as signed
  where the code compares it.\<close>

type_synonym s32 = "32 word"

definition TILES_X :: int where "TILES_X = 4"
definition TILES_Y :: int where "TILES_Y = 4"
definition NUM_TILES :: nat where "NUM_TILES = 16"

definition INT_MIN :: int where "INT_MIN = - (2 ^ 31)"
definition INT_MAX :: int where "INT_MAX = 2 ^ 31 - 1"
definition UINT32_MAX :: u32 where "UINT32_MAX = - 1"

text \<open>\<^verbatim>\<open>enum MoveDir { MOVE_LEFT, MOVE_RIGHT, MOVE_UP, MOVE_DOWN }\<close> and the two tables
  indexed by it.\<close>

definition DIR_DX :: "int list" where "DIR_DX = [- 1, 1, 0, 0]"
definition DIR_DY :: "int list" where "DIR_DY = [0, 0, - 1, 1]"

subsection \<open>The random number generator\<close>

record RNG =
  rng_x :: u32
  rng_y :: u32
  rng_z :: u32
  rng_w :: u32

text \<open>\<^verbatim>\<open>RNG::reset(seed)\<close>\<close>

definition xorshift_seed :: "u32 \<Rightarrow> u32" where
  "xorshift_seed a =
     (let b = a XOR push_bit 13 a; b = b XOR drop_bit 17 b; b = b XOR push_bit 5 b in b)"

definition rng_reset :: "u32 \<Rightarrow> RNG" where
  "rng_reset seed =
     (let x = (if seed \<noteq> 0 then seed else 123456789);
          y = xorshift_seed x;
          z = xorshift_seed y;
          w = xorshift_seed z
      in \<lparr>rng_x = x, rng_y = y, rng_z = z, rng_w = w\<rparr>)"

text \<open>\<^verbatim>\<open>RNG::next32\<close>: the draw and the advanced generator.\<close>

definition next32 :: "RNG \<Rightarrow> u32 \<times> RNG" where
  "next32 g =
     (let t = rng_x g XOR push_bit 15 (rng_x g);
          t = (rng_w g XOR drop_bit 21 (rng_w g)) XOR (t XOR drop_bit 4 t)
      in (t, \<lparr>rng_x = rng_y g, rng_y = rng_z g, rng_z = rng_w g, rng_w = t\<rparr>))"

text \<open>The loop \<^verbatim>\<open>do { value = next32(); } while (value >= range);\<close> of
  \<^verbatim>\<open>RNG::next_n\<close>. Nothing in the code bounds the number of draws, so the loop is a
  partial function: \<open>None\<close> is a loop that never ends.\<close>

partial_function (option) next_n_draw :: "u32 \<Rightarrow> RNG \<Rightarrow> (u32 \<times> RNG) option" where
  "next_n_draw range32 g =
     (case next32 g of (v, g') \<Rightarrow> if range32 \<le> v then next_n_draw range32 g' else Some (v, g'))"

declare next_n_draw.simps [code]

text \<open>\<^verbatim>\<open>RNG::next_n(int n)\<close>. The argument is a C \<^verbatim>\<open>int\<close>, read as signed by the first
  assertion and converted to \<^verbatim>\<open>uint32_t\<close> by the arithmetic; division and remainder are
  unsigned.\<close>

definition next_n_range :: "u32 \<Rightarrow> u32" where
  "next_n_range n = UINT32_MAX - (UINT32_MAX mod n)"

definition next_n :: "u32 \<Rightarrow> RNG \<Rightarrow> (u32 \<times> RNG) option" where
  "next_n n g =
     (if \<not> 0 <s n then None
      else do {
        (v, g') \<leftarrow> next_n_draw (next_n_range n) g;
        let v = v div ((next_n_range n - 1) div n + 1);
        if v < n then Some (v, g') else None
      })"

subsection \<open>The board\<close>

text \<open>\<^verbatim>\<open>typedef uint8_t BoardState[NUM_TILES]\<close>; \<^verbatim>\<open>struct Board\<close> has this array as its only
  member. A board is well formed when it has \<open>NUM_TILES\<close> cells.\<close>

type_synonym BoardState = "u8 list"

definition board_reset :: BoardState where
  "board_reset = replicate NUM_TILES 0"

text \<open>The animation state is presentation only (key frames in floating point). What the
  board operations do to it is kept as the list of the calls they make; \<^verbatim>\<open>AnimState::reset\<close>
  empties it. A null \<^verbatim>\<open>AnimState*\<close> or \<^verbatim>\<open>int *score\<close> is \<open>None\<close>.\<close>

datatype anim_call =
    Merge int int int u8
  | Slide int int u8
  | Blank int
  | New_tile nat u8

type_synonym AnimState = "anim_call list"

definition anim_call :: "anim_call \<Rightarrow> AnimState option \<Rightarrow> AnimState option" where
  "anim_call c anim = map_option (\<lambda>a. a @ [c]) anim"

text \<open>The arrays \<^verbatim>\<open>tiles[NUM_TILES*2]\<close> and \<^verbatim>\<open>scores[NUM_TILES]\<close> of the animation state:
  \<^verbatim>\<open>merge\<close> adds three tile animations and one score animation, \<^verbatim>\<open>slide\<close> and
  \<^verbatim>\<open>new_tile\<close> one tile animation each, \<^verbatim>\<open>blank\<close> nothing. Every add function first
  asserts that its array has room (\<^verbatim>\<open>ntiles < NUM_TILES*2\<close>, \<^verbatim>\<open>nscores < NUM_TILES\<close>). The
  counts grow by one with each addition and nothing but \<^verbatim>\<open>reset\<close> lowers them, so one of
  these assertions has failed while calls were made exactly when the calls need more than
  the arrays hold: \<open>anim_room\<close> says that they do not.\<close>

fun call_tiles :: "anim_call \<Rightarrow> nat" where
  "call_tiles (Merge from0 from1 to v) = 3"
| "call_tiles (Slide from to v) = 1"
| "call_tiles (Blank to) = 0"
| "call_tiles (New_tile cell v) = 1"

fun call_scores :: "anim_call \<Rightarrow> nat" where
  "call_scores (Merge from0 from1 to v) = 1"
| "call_scores (Slide from to v) = 0"
| "call_scores (Blank to) = 0"
| "call_scores (New_tile cell v) = 0"

definition ntiles :: "AnimState option \<Rightarrow> nat" where
  "ntiles anim = (case anim of None \<Rightarrow> 0 | Some a \<Rightarrow> sum_list (map call_tiles a))"

definition nscores :: "AnimState option \<Rightarrow> nat" where
  "nscores anim = (case anim of None \<Rightarrow> 0 | Some a \<Rightarrow> sum_list (map call_scores a))"

definition anim_room :: "AnimState option \<Rightarrow> bool" where
  "anim_room anim \<longleftrightarrow> ntiles anim \<le> NUM_TILES * 2 \<and> nscores anim \<le> NUM_TILES"

text \<open>\<^verbatim>\<open>Board::count_free(free)\<close>: the indices of the empty cells in increasing order; the
  returned count is the length of the list.\<close>

definition count_free :: "BoardState \<Rightarrow> nat list" where
  "count_free st = filter (\<lambda>i. st ! i = 0) [0..<NUM_TILES]"

text \<open>The loop of \<^verbatim>\<open>Board::place\<close>. The chosen slot is removed from \<^verbatim>\<open>free\<close> by moving
  the later slots down by one.\<close>

definition remove_slot :: "nat \<Rightarrow> nat list \<Rightarrow> nat list" where
  "remove_slot which free = take which free @ drop (Suc which) free"

fun place_loop ::
  "nat \<Rightarrow> nat list \<Rightarrow> BoardState \<Rightarrow> AnimState option \<Rightarrow> RNG
     \<Rightarrow> (BoardState \<times> AnimState option \<times> RNG) option" where
  "place_loop 0 free st anim rng = Some (st, anim, rng)"
| "place_loop (Suc count) free st anim rng =
     (if free = [] then Some (st, anim, rng)
      else do {
        (r, rng) \<leftarrow> next_n 10 rng;
        let v = (if r < 9 then 1 else 2);
        (which, rng) \<leftarrow> next_n (of_nat (length free)) rng;
        let cell = free ! unat which;
        let anim = anim_call (New_tile cell v) anim;
        if anim_room anim then
          place_loop count (remove_slot (unat which) free) (st[cell := v]) anim rng
        else None
      })"

definition place ::
  "nat \<Rightarrow> BoardState \<Rightarrow> AnimState option \<Rightarrow> RNG
     \<Rightarrow> (BoardState \<times> AnimState option \<times> RNG) option" where
  "place count st anim rng =
     (if count = 0 then None else place_loop count (count_free st) st anim rng)"

text \<open>\<^verbatim>\<open>Board::tilt\<close>. The record holds the array and the locals of the function. The scan
  of one line visits \<^verbatim>\<open>from = begin, begin + step_minor, ...\<close> up to \<^verbatim>\<open>stop\<close>. The score grows
  by \<^verbatim>\<open>1 << (last_value + 1)\<close> in 32 bits (C defines the shift for a count below 31; the
  word shift gives \<^verbatim>\<open>INT_MIN\<close> at 31 and 0 beyond). The call returns when no assertion
  of the animation state has failed on the way.\<close>

record scan =
  s_state :: BoardState
  s_to :: int
  s_last_value :: u8
  s_last_from :: int
  s_moved :: bool
  s_score :: "s32 option"
  s_anim :: "AnimState option"

definition line_cells :: "int \<Rightarrow> int \<Rightarrow> nat \<Rightarrow> int list" where
  "line_cells begin step_minor m = map (\<lambda>j. begin + int j * step_minor) [0..<m]"

definition tilt_visit :: "int \<Rightarrow> scan \<Rightarrow> int \<Rightarrow> scan" where
  "tilt_visit step_minor s from =
     (if s_state s ! nat from \<noteq> 0 then
        (if s_last_value s \<noteq> 0 then
           (if s_last_value s = s_state s ! nat from then
              s\<lparr>s_anim := anim_call (Merge (s_last_from s) from (s_to s) (s_last_value s)) (s_anim s),
                s_score := map_option (\<lambda>sc. sc + push_bit (unat (s_last_value s) + 1) 1) (s_score s),
                s_moved := True,
                s_state := (s_state s)[nat (s_to s) := s_last_value s + 1],
                s_last_value := 0,
                s_to := s_to s + step_minor\<rparr>
            else
              s\<lparr>s_anim := anim_call (Slide (s_last_from s) (s_to s) (s_last_value s)) (s_anim s),
                s_moved := (s_moved s \<or> s_last_from s \<noteq> s_to s),
                s_state := (s_state s)[nat (s_to s) := s_last_value s],
                s_last_value := s_state s ! nat from,
                s_last_from := from,
                s_to := s_to s + step_minor\<rparr>)
         else s\<lparr>s_last_value := s_state s ! nat from, s_last_from := from\<rparr>)
      else s)"

definition tilt_flush :: "int \<Rightarrow> scan \<Rightarrow> scan" where
  "tilt_flush step_minor s =
     (if s_last_value s \<noteq> 0 then
        s\<lparr>s_anim := anim_call (Slide (s_last_from s) (s_to s) (s_last_value s)) (s_anim s),
          s_moved := (s_moved s \<or> s_last_from s \<noteq> s_to s),
          s_state := (s_state s)[nat (s_to s) := s_last_value s],
          s_to := s_to s + step_minor\<rparr>
      else s)"

definition tilt_blank :: "int \<Rightarrow> scan \<Rightarrow> int \<Rightarrow> scan" where
  "tilt_blank step_minor s to =
     s\<lparr>s_anim := anim_call (Blank to) (s_anim s),
       s_state := (s_state s)[nat to := 0],
       s_to := to + step_minor\<rparr>"

definition tilt_line :: "int \<Rightarrow> nat \<Rightarrow> scan \<Rightarrow> int \<Rightarrow> scan" where
  "tilt_line step_minor m s begin =
     (let cells = line_cells begin step_minor m;
          s = s\<lparr>s_to := begin, s_last_value := 0, s_last_from := begin\<rparr>;
          s = foldl (tilt_visit step_minor) s cells;
          s = tilt_flush step_minor s
      in foldl (tilt_blank step_minor) s (dropWhile (\<lambda>c. c \<noteq> s_to s) cells))"

definition tilt ::
  "int \<Rightarrow> int \<Rightarrow> BoardState \<Rightarrow> AnimState option \<Rightarrow> s32 option
     \<Rightarrow> (bool \<times> BoardState \<times> AnimState option \<times> s32 option) option" where
  "tilt dx dy st anim score =
     (if \<not> ((dx \<noteq> 0 \<and> dy = 0) \<or> (dy \<noteq> 0 \<and> dx = 0)) then None
      else
        let begin = (if (dx OR dy) > 0 then int NUM_TILES - 1 else 0);
            step_major = - (dx * TILES_X + dy);
            step_minor = - (dy * TILES_X + dx);
            n = nat (if dx \<noteq> 0 then TILES_Y else TILES_X);
            m = nat (if dx \<noteq> 0 then TILES_X else TILES_Y);
            s = foldl (tilt_line step_minor m)
                  \<lparr>s_state = st, s_to = begin, s_last_value = 0, s_last_from = begin,
                   s_moved = False, s_score = score, s_anim = anim\<rparr>
                  (line_cells begin step_major n)
        in if anim_room (s_anim s) then Some (s_moved s, s_state s, s_anim s, s_score s)
           else None)"

text \<open>\<^verbatim>\<open>Board::move\<close>\<close>

definition move ::
  "int \<Rightarrow> BoardState \<Rightarrow> AnimState option \<Rightarrow> RNG \<Rightarrow> s32 option
     \<Rightarrow> (bool \<times> BoardState \<times> AnimState option \<times> RNG \<times> s32 option) option" where
  "move dir st anim rng score =
     (if \<not> (0 \<le> dir \<and> dir < 4) then None
      else do {
        let anim = map_option (\<lambda>_. []) anim;
        (moved, st, anim, score) \<leftarrow> tilt (DIR_DX ! nat dir) (DIR_DY ! nat dir) st anim score;
        if moved then do {
          (st, anim, rng) \<leftarrow> place 1 st anim rng;
          Some (moved, st, anim, rng, score)
        } else Some (moved, st, anim, rng, score)
      })"

subsection \<open>The history of a game\<close>

text \<open>\<^verbatim>\<open>struct BoardHistory::HistoryState\<close> and its members.\<close>

record HistoryState =
  hs_board :: BoardState
  hs_rng :: RNG
  hs_score :: s32

definition hs_reset_seed :: "u32 \<Rightarrow> HistoryState" where
  "hs_reset_seed seed = \<lparr>hs_board = board_reset, hs_rng = rng_reset seed, hs_score = 0\<rparr>"

definition hs_reset_rng :: "RNG \<Rightarrow> HistoryState" where
  "hs_reset_rng initial_rng = \<lparr>hs_board = board_reset, hs_rng = initial_rng, hs_score = 0\<rparr>"

definition hs_reset_board :: "BoardState \<Rightarrow> RNG \<Rightarrow> HistoryState" where
  "hs_reset_board initial_board initial_rng =
     \<lparr>hs_board = initial_board, hs_rng = initial_rng, hs_score = 0\<rparr>"

definition hs_place ::
  "nat \<Rightarrow> AnimState option \<Rightarrow> HistoryState \<Rightarrow> (HistoryState \<times> AnimState option) option" where
  "hs_place n anim hs =
     do {
       (st, anim, rng) \<leftarrow> place n (hs_board hs) anim (hs_rng hs);
       Some (hs\<lparr>hs_board := st, hs_rng := rng\<rparr>, anim)
     }"

definition hs_move ::
  "int \<Rightarrow> AnimState option \<Rightarrow> HistoryState
     \<Rightarrow> (bool \<times> HistoryState \<times> AnimState option) option" where
  "hs_move dir anim hs =
     do {
       (moved, st, anim, rng, score) \<leftarrow>
         move dir (hs_board hs) anim (hs_rng hs) (Some (hs_score hs));
       Some (moved,
         \<lparr>hs_board = st, hs_rng = rng,
          hs_score = (case score of Some sc \<Rightarrow> sc | None \<Rightarrow> hs_score hs)\<rparr>, anim)
     }"

text \<open>\<^verbatim>\<open>struct BoardHistory\<close>: the ring \<^verbatim>\<open>history[MAX_UNDO]\<close> is a function of the slot
  index.\<close>

definition MAX_UNDO :: nat where "MAX_UNDO = 4096"

record BoardHistory =
  history :: "nat \<Rightarrow> HistoryState"
  current :: nat
  undo_avail :: nat
  redo_avail :: nat

definition get_rng :: "BoardHistory \<Rightarrow> RNG" where
  "get_rng h = hs_rng (history h (current h))"

definition get_board :: "BoardHistory \<Rightarrow> BoardState" where
  "get_board h = hs_board (history h (current h))"

definition clear_history :: "BoardHistory \<Rightarrow> BoardHistory" where
  "clear_history h =
     h\<lparr>history := (history h)(0 := hs_reset_rng (get_rng h)),
       current := 0, undo_avail := 0, redo_avail := 0\<rparr>"

definition history_reset :: "u32 \<Rightarrow> BoardHistory \<Rightarrow> BoardHistory" where
  "history_reset seed h =
     h\<lparr>history := (history h)(0 := hs_reset_seed seed),
       current := 0, undo_avail := 0, redo_avail := 0\<rparr>"

definition history_reset_board :: "BoardState \<Rightarrow> RNG \<Rightarrow> BoardHistory \<Rightarrow> BoardHistory" where
  "history_reset_board board initial_state h =
     h\<lparr>history := (history h)(0 := hs_reset_board board initial_state),
       current := 0, undo_avail := 0, redo_avail := 0\<rparr>"

definition new_game :: "AnimState \<Rightarrow> BoardHistory \<Rightarrow> (BoardHistory \<times> AnimState) option" where
  "new_game anim h =
     (let h = clear_history h in
      do {
        (hs, anim') \<leftarrow> hs_place 2 (Some anim) (history h 0);
        Some (h\<lparr>history := (history h)(0 := hs)\<rparr>,
              (case anim' of Some a \<Rightarrow> a | None \<Rightarrow> anim))
      })"

definition undo :: "BoardHistory \<Rightarrow> BoardHistory" where
  "undo h =
     (if undo_avail h \<noteq> 0 then
        h\<lparr>undo_avail := undo_avail h - 1, redo_avail := redo_avail h + 1,
          current := (current h + MAX_UNDO - 1) mod MAX_UNDO\<rparr>
      else h)"

definition redo :: "BoardHistory \<Rightarrow> BoardHistory" where
  "redo h =
     (if redo_avail h \<noteq> 0 then
        h\<lparr>redo_avail := redo_avail h - 1, undo_avail := undo_avail h + 1,
          current := (current h + 1) mod MAX_UNDO\<rparr>
      else h)"

definition history_move ::
  "int \<Rightarrow> AnimState \<Rightarrow> BoardHistory \<Rightarrow> (BoardHistory \<times> AnimState) option" where
  "history_move dir anim h =
     do {
       (moved, next, anim') \<leftarrow> hs_move dir (Some anim) (history h (current h));
       let anim = (case anim' of Some a \<Rightarrow> a | None \<Rightarrow> anim);
       if moved then
         let cur = (current h + 1) mod MAX_UNDO in
         Some (h\<lparr>current := cur,
                 history := (history h)(cur := next),
                 undo_avail := (if undo_avail h < MAX_UNDO then undo_avail h + 1 else undo_avail h),
                 redo_avail := 0\<rparr>, anim)
       else Some (h, anim)
     }"

subsection \<open>The transposition cache\<close>

text \<open>\<^verbatim>\<open>pack_board_state\<close>: the loop over the cells, with its assertion.\<close>

fun pack_cells :: "u64 \<Rightarrow> u8 list \<Rightarrow> u64 option" where
  "pack_cells k [] = Some k"
| "pack_cells k (c # cs) =
     (if c < 16 then pack_cells (push_bit 4 k OR ucast c) cs else None)"

definition pack_board_state :: "BoardState \<Rightarrow> u64 option" where
  "pack_board_state board = pack_cells 0 board"

definition mix64 :: "u64 \<Rightarrow> u64" where
  "mix64 key =
     (let key = NOT key + push_bit 21 key;
          key = key XOR drop_bit 24 key;
          key = key * 265;
          key = key XOR drop_bit 14 key;
          key = key * 21;
          key = key XOR drop_bit 28 key;
          key = key + push_bit 31 key
      in key)"

text \<open>\<^verbatim>\<open>class BoardCache<T>\<close>. A bucket is its eight slots in order, slot \<open>i\<close> being the pair
  \<^verbatim>\<open>(keys[i], values[i])\<close>; \<^verbatim>\<open>m_buckets\<close> is a function of the bucket index, and the
  pointer that \<^verbatim>\<open>where\<close> returns is that index. \<^verbatim>\<open>reset\<close> fills the memory with zero
  bytes: \<open>zero\<close> is the value of \<^verbatim>\<open>T\<close> they stand for.\<close>

definition BUCKET_SIZE :: nat where "BUCKET_SIZE = 8"
definition BUCKET_COUNT :: nat where "BUCKET_COUNT = 2 ^ 15 div BUCKET_SIZE"
definition BUCKET_INDEX_MASK :: u64 where "BUCKET_INDEX_MASK = of_nat (BUCKET_COUNT - 1)"

type_synonym 'a Bucket = "(u64 \<times> 'a) list"
type_synonym 'a BoardCache = "nat \<Rightarrow> 'a Bucket"

definition cache_reset :: "'a \<Rightarrow> 'a BoardCache" where
  "cache_reset zero = (\<lambda>_. replicate BUCKET_SIZE (0, zero))"

definition cache_where :: "u64 \<Rightarrow> nat" where
  "cache_where k = unat (mix64 k AND BUCKET_INDEX_MASK)"

text \<open>The scan of \<^verbatim>\<open>get\<close>: the value of the first slot that holds the key.\<close>

fun bucket_get :: "u64 \<Rightarrow> 'a Bucket \<Rightarrow> 'a option" where
  "bucket_get k [] = None"
| "bucket_get k ((k', v) # slots) = (if k' = k then Some v else bucket_get k slots)"

definition cache_get :: "u64 \<Rightarrow> nat \<Rightarrow> 'a BoardCache \<Rightarrow> 'a option option" where
  "cache_get k loc cache = (if k = 0 then None else Some (bucket_get k (cache loc)))"

text \<open>The first loop of \<^verbatim>\<open>put\<close> overwrites the value of the first slot that holds the key;
  when there is none, the second loop moves every slot down by one, dropping the last, and
  the pair goes to slot 0.\<close>

fun bucket_replace :: "u64 \<Rightarrow> 'a \<Rightarrow> 'a Bucket \<Rightarrow> 'a Bucket option" where
  "bucket_replace k v [] = None"
| "bucket_replace k v ((k', v') # slots) =
     (if k' = k then Some ((k', v) # slots)
      else map_option (\<lambda>b. (k', v') # b) (bucket_replace k v slots))"

definition bucket_put :: "u64 \<Rightarrow> 'a \<Rightarrow> 'a Bucket \<Rightarrow> 'a Bucket" where
  "bucket_put k v slots =
     (case bucket_replace k v slots of
        Some b \<Rightarrow> b
      | None \<Rightarrow> (k, v) # butlast slots)"

definition cache_put :: "u64 \<Rightarrow> nat \<Rightarrow> 'a \<Rightarrow> 'a BoardCache \<Rightarrow> 'a BoardCache option" where
  "cache_put k loc v cache =
     (if k = 0 then None else Some (cache(loc := bucket_put k v (cache loc))))"

section \<open>Notions used by the proofs and the statements\<close>

subsection \<open>One line of a tilt as a function of its cells\<close>

text \<open>The scan of \<^verbatim>\<open>Board::tilt\<close> over one line, told on the list \<open>V\<close> of the line's cells
  in scan order instead of on the array: \<open>r_out\<close> are the cells written so far (the write
  cursor \<^verbatim>\<open>to\<close> is their number), \<open>r_lv\<close> and \<open>r_lf\<close> are \<^verbatim>\<open>last_value\<close> and the position of
  \<^verbatim>\<open>last_from\<close> in the line, \<open>r_merged\<close> lists the values merged. The refinement lemmas below
  connect it to \<open>tilt_line\<close>.\<close>

record row =
  r_out :: "u8 list"
  r_lv :: u8
  r_lf :: nat
  r_moved :: bool
  r_merged :: "u8 list"

definition row_visit :: "u8 list \<Rightarrow> row \<Rightarrow> nat \<Rightarrow> row" where
  "row_visit V r j =
     (if V ! j \<noteq> 0 then
        (if r_lv r \<noteq> 0 then
           (if r_lv r = V ! j then
              r\<lparr>r_out := r_out r @ [r_lv r + 1], r_lv := 0, r_moved := True,
                r_merged := r_merged r @ [r_lv r]\<rparr>
            else
              r\<lparr>r_out := r_out r @ [r_lv r], r_moved := (r_moved r \<or> r_lf r \<noteq> length (r_out r)),
                r_lv := V ! j, r_lf := j\<rparr>)
         else r\<lparr>r_lv := V ! j, r_lf := j\<rparr>)
      else r)"

definition row_flush :: "row \<Rightarrow> row" where
  "row_flush r =
     (if r_lv r \<noteq> 0 then
        r\<lparr>r_out := r_out r @ [r_lv r], r_moved := (r_moved r \<or> r_lf r \<noteq> length (r_out r))\<rparr>
      else r)"

definition row_init :: row where
  "row_init = \<lparr>r_out = [], r_lv = 0, r_lf = 0, r_moved = False, r_merged = []\<rparr>"

definition row_scan :: "u8 list \<Rightarrow> row" where
  "row_scan V = row_flush (foldl (row_visit V) row_init [0..<length V])"

definition row_result :: "u8 list \<Rightarrow> u8 list" where
  "row_result V = r_out (row_scan V) @ replicate (length V - length (r_out (row_scan V))) 0"

text \<open>The score that a list of merged values earns, and the number of \<^verbatim>\<open>merge\<close> calls
  an animation state has received.\<close>

definition gain :: "u8 list \<Rightarrow> s32" where
  "gain ms = (\<Sum>v\<leftarrow>ms. push_bit (unat v + 1) 1)"

definition merges :: "AnimState option \<Rightarrow> nat" where
  "merges anim = (case anim of None \<Rightarrow> 0 | Some a \<Rightarrow> length (filter (\<lambda>c. case c of Merge _ _ _ _ \<Rightarrow> True | _ \<Rightarrow> False) a))"

text \<open>Cell \<open>j\<close> of the line that begins at \<open>b\<close> and steps by \<open>d\<close>, as the \<^verbatim>\<open>int\<close> the code
  computes and as an index of the array.\<close>

definition cellint :: "int \<Rightarrow> int \<Rightarrow> nat \<Rightarrow> int" where
  "cellint b d j = b + int j * d"

definition cellpos :: "int \<Rightarrow> int \<Rightarrow> nat \<Rightarrow> nat" where
  "cellpos b d j = nat (cellint b d j)"

definition sim :: "int \<Rightarrow> int \<Rightarrow> scan \<Rightarrow> row \<Rightarrow> scan \<Rightarrow> bool" where
  "sim b d s0 r s \<longleftrightarrow>
     length (s_state s) = length (s_state s0) \<and>
     (\<forall>k<length (r_out r). s_state s ! cellpos b d k = r_out r ! k) \<and>
     (\<forall>q. q \<notin> cellpos b d ` {..<length (r_out r)} \<longrightarrow> s_state s ! q = s_state s0 ! q) \<and>
     s_to s = cellint b d (length (r_out r)) \<and>
     s_last_value s = r_lv r \<and>
     s_last_from s = cellint b d (r_lf r) \<and>
     s_moved s = (s_moved s0 \<or> r_moved r) \<and>
     s_score s = map_option (\<lambda>sc. sc + gain (r_merged r)) (s_score s0) \<and>
     (s_anim s = None \<longleftrightarrow> s_anim s0 = None) \<and>
     merges (s_anim s) = (if s_anim s0 = None then 0 else merges (s_anim s0) + length (r_merged r))"

definition rinv :: "nat \<Rightarrow> row \<Rightarrow> bool" where
  "rinv j r \<longleftrightarrow> length (r_out r) \<le> j \<and> (r_lv r \<noteq> 0 \<longrightarrow> length (r_out r) \<le> r_lf r \<and> r_lf r < j)"

definition line_ok :: "int \<Rightarrow> int \<Rightarrow> nat \<Rightarrow> nat \<Rightarrow> bool" where
  "line_ok b d m n \<longleftrightarrow> d \<noteq> 0 \<and> (\<forall>j<m. 0 \<le> b + int j * d \<and> b + int j * d < int n)"

definition blanked :: "int \<Rightarrow> int \<Rightarrow> nat \<Rightarrow> nat \<Rightarrow> scan \<Rightarrow> scan \<Rightarrow> bool" where
  "blanked b d t m s s' \<longleftrightarrow>
     length (s_state s') = length (s_state s) \<and>
     (\<forall>k. t \<le> k \<and> k < m \<longrightarrow> s_state s' ! cellpos b d k = 0) \<and>
     (\<forall>q. q \<notin> cellpos b d ` {t..<m} \<longrightarrow> s_state s' ! q = s_state s ! q) \<and>
     s_moved s' = s_moved s \<and> s_score s' = s_score s \<and>
     (s_anim s' = None \<longleftrightarrow> s_anim s = None) \<and> merges (s_anim s') = merges (s_anim s)"

text \<open>The same scan as plain recursion over the cells that remain, the first argument being
  the pending \<^verbatim>\<open>last_value\<close>: the cells written, the values merged, and whether the line
  moved.\<close>

fun slide :: "u8 \<Rightarrow> u8 list \<Rightarrow> u8 list" where
  "slide lv [] = (if lv \<noteq> 0 then [lv] else [])"
| "slide lv (v # vs) =
     (if v = 0 then slide lv vs
      else if lv = 0 then slide v vs
      else if lv = v then (lv + 1) # slide 0 vs
      else lv # slide v vs)"

fun slide_merged :: "u8 \<Rightarrow> u8 list \<Rightarrow> u8 list" where
  "slide_merged lv [] = []"
| "slide_merged lv (v # vs) =
     (if v = 0 then slide_merged lv vs
      else if lv = 0 then slide_merged v vs
      else if lv = v then lv # slide_merged 0 vs
      else slide_merged v vs)"

fun slide_moved :: "nat \<Rightarrow> nat \<Rightarrow> u8 \<Rightarrow> nat \<Rightarrow> u8 list \<Rightarrow> bool" where
  "slide_moved t lf lv j [] = (lv \<noteq> 0 \<and> lf \<noteq> t)"
| "slide_moved t lf lv j (v # vs) =
     (if v = 0 then slide_moved t lf lv (Suc j) vs
      else if lv = 0 then slide_moved t j v (Suc j) vs
      else if lv = v then True
      else (lf \<noteq> t \<or> slide_moved (Suc t) j v (Suc j) vs))"

subsection \<open>The lines of the board\<close>

definition gpos :: "int \<Rightarrow> int \<Rightarrow> int \<Rightarrow> nat \<Rightarrow> nat \<Rightarrow> nat" where
  "gpos b0 M d i j = cellpos (cellint b0 M i) d j"

definition grid_ok :: "int \<Rightarrow> int \<Rightarrow> int \<Rightarrow> nat \<Rightarrow> nat \<Rightarrow> nat \<Rightarrow> bool" where
  "grid_ok b0 M d n m N \<longleftrightarrow>
     (\<forall>i<n. line_ok (cellint b0 M i) d m N) \<and>
     (\<forall>i<n. \<forall>i'<n. \<forall>j<m. \<forall>j'<m. gpos b0 M d i j = gpos b0 M d i' j' \<longrightarrow> i = i' \<and> j = j')"

definition gline :: "int \<Rightarrow> int \<Rightarrow> int \<Rightarrow> nat \<Rightarrow> BoardState \<Rightarrow> nat \<Rightarrow> u8 list" where
  "gline b0 M d m st i = map (\<lambda>j. st ! gpos b0 M d i j) [0..<m]"

definition lines_done :: "int \<Rightarrow> int \<Rightarrow> int \<Rightarrow> nat \<Rightarrow> nat \<Rightarrow> scan \<Rightarrow> scan \<Rightarrow> bool" where
  "lines_done b0 M d m k s0 s \<longleftrightarrow>
     length (s_state s) = length (s_state s0) \<and>
     (\<forall>i<k. \<forall>j<m. s_state s ! gpos b0 M d i j = row_result (gline b0 M d m (s_state s0) i) ! j) \<and>
     (\<forall>q. (\<forall>i<k. q \<notin> gpos b0 M d i ` {..<m}) \<longrightarrow> s_state s ! q = s_state s0 ! q) \<and>
     s_moved s = (s_moved s0 \<or> (\<exists>i<k. r_moved (row_scan (gline b0 M d m (s_state s0) i)))) \<and>
     s_score s = map_option (\<lambda>sc. sc + (\<Sum>i<k. gain (r_merged (row_scan (gline b0 M d m (s_state s0) i))))) (s_score s0) \<and>
     (s_anim s = None \<longleftrightarrow> s_anim s0 = None) \<and>
     merges (s_anim s) = (if s_anim s0 = None then 0
        else merges (s_anim s0) + (\<Sum>i<k. length (r_merged (row_scan (gline b0 M d m (s_state s0) i)))))"

text \<open>The four directions of the tables \<open>DIR_DX\<close> and \<open>DIR_DY\<close>, and for each of them
  \<^verbatim>\<open>begin\<close>, \<^verbatim>\<open>step_major\<close> and \<^verbatim>\<open>step_minor\<close> of \<^verbatim>\<open>Board::tilt\<close>; \<open>tpos dx dy i j\<close> is the
  index of cell \<open>j\<close> of line \<open>i\<close> in scan order and \<open>tline dx dy st i\<close> the cells of that
  line.\<close>

definition dir_ok :: "int \<Rightarrow> int \<Rightarrow> bool" where
  "dir_ok dx dy \<longleftrightarrow> (dx, dy) \<in> {(- 1, 0), (1, 0), (0, - 1), (0, 1)}"

definition t_begin :: "int \<Rightarrow> int \<Rightarrow> int" where
  "t_begin dx dy = (if (dx OR dy) > 0 then 15 else 0)"

definition t_major :: "int \<Rightarrow> int \<Rightarrow> int" where
  "t_major dx dy = - (dx * 4 + dy)"

definition t_minor :: "int \<Rightarrow> int \<Rightarrow> int" where
  "t_minor dx dy = - (dy * 4 + dx)"

definition tpos :: "int \<Rightarrow> int \<Rightarrow> nat \<Rightarrow> nat \<Rightarrow> nat" where
  "tpos dx dy i j = gpos (t_begin dx dy) (t_major dx dy) (t_minor dx dy) i j"

definition tline :: "int \<Rightarrow> int \<Rightarrow> BoardState \<Rightarrow> nat \<Rightarrow> u8 list" where
  "tline dx dy st i = map (\<lambda>j. st ! tpos dx dy i j) [0..<4]"

text \<open>The number of non-empty cells of a board, and its total value mass: the sum of
  \<open>2 ^ c\<close> over the non-empty cells \<open>c\<close>.\<close>

definition nonempty :: "u8 list \<Rightarrow> nat" where
  "nonempty st = length (filter (\<lambda>c. c \<noteq> 0) st)"

definition mass :: "u8 list \<Rightarrow> nat" where
  "mass st = (\<Sum>c\<leftarrow>st. if c = 0 then 0 else 2 ^ unat c)"

text \<open>A line is settled when it is packed towards the edge the scan starts from (no tile
  after an empty cell) and no two neighbouring tiles are equal; a board is settled for a
  direction when its four lines are.\<close>

fun line_settled :: "u8 list \<Rightarrow> bool" where
  "line_settled (a # b # vs) = ((a = 0 \<longrightarrow> b = 0) \<and> (a \<noteq> 0 \<longrightarrow> a \<noteq> b) \<and> line_settled (b # vs))"
| "line_settled vs = True"

definition settled :: "int \<Rightarrow> int \<Rightarrow> BoardState \<Rightarrow> bool" where
  "settled dx dy st = list_all (\<lambda>i. line_settled (tline dx dy st i)) [0..<4]"

text \<open>A line is mergeable when two neighbouring cells hold equal tiles; a board is
  mergeable for a direction when one of its four lines is.\<close>

fun line_mergeable :: "u8 list \<Rightarrow> bool" where
  "line_mergeable (a # b # vs) = ((a \<noteq> 0 \<and> a = b) \<or> line_mergeable (b # vs))"
| "line_mergeable vs = False"

definition mergeable :: "int \<Rightarrow> int \<Rightarrow> BoardState \<Rightarrow> bool" where
  "mergeable dx dy st = list_ex (\<lambda>i. line_mergeable (tline dx dy st i)) [0..<4]"

section \<open>Example inputs\<close>

text \<open>Concrete boards and histories at which the theorems below are instantiated and the
  code is evaluated.\<close>

definition ex_packed :: BoardState where
  "ex_packed = [1, 0, 0, 0,  2, 1, 0, 0,  0, 0, 0, 0,  3, 0, 0, 0]"

definition ex_history :: BoardHistory where
  "ex_history = \<lparr>history = (\<lambda>_. hs_reset_board ex_packed (rng_reset 1)),
     current = 7, undo_avail = 3, redo_avail = 2\<rparr>"

definition ex_twice :: BoardState where
  "ex_twice = [1, 1, 2, 0,  0, 0, 0, 0,  0, 0, 0, 0,  0, 0, 0, 0]"

definition ex_merge :: BoardState where
  "ex_merge = [1, 1, 0, 0,  0, 3, 0, 0,  0, 0, 0, 0,  2, 0, 2, 5]"

definition ex_slide :: BoardState where
  "ex_slide = [0, 1, 0, 2,  0, 0, 3, 0,  1, 2, 1, 0,  0, 0, 0, 0]"

text \<open>A history after 4095 committed moves: the ring index and the undo count are both 4095
  and nothing can be redone. \<^verbatim>\<open>move\<close> reads the current snapshot only.\<close>

definition ex_long_history :: BoardHistory where
  "ex_long_history = \<lparr>history = (\<lambda>_. hs_reset_board ex_twice (rng_reset 1)),
     current = 4095, undo_avail = 4095, redo_avail = 0\<rparr>"

subsection \<open>Filling a bucket\<close>

text \<open>A run of \<^verbatim>\<open>put(k, where(k), v)\<close> calls, one for each pair of the list in order, as the
  caching searchers make them.\<close>

fun put_all :: "(u64 \<times> 'a) list \<Rightarrow> 'a BoardCache \<Rightarrow> 'a BoardCache option" where
  "put_all [] cache = Some cache"
| "put_all ((k, v) # kvs) cache =
     do { cache \<leftarrow> cache_put k (cache_where k) v cache; put_all kvs cache }"

text \<open>Nine keys that \<^verbatim>\<open>where\<close> sends to bucket 2254, each with a value.\<close>

definition ex_keys :: "(u64 \<times> nat) list" where
  "ex_keys = [(1, 10), (137, 20), (5579, 30), (8258, 40), (8780, 50), (9573, 60),
     (15362, 70), (18923, 80), (24359, 90)]"

section \<open>The generator\<close>

text \<open>The draw of \<^verbatim>\<open>RNG::next32\<close> as a function of the two state words it reads, and the
  sixteen largest 32-bit values.\<close>

definition draw_of :: "u32 \<Rightarrow> u32 \<Rightarrow> u32" where
  "draw_of x w = (let t = x XOR push_bit 15 x in (w XOR drop_bit 21 w) XOR (t XOR drop_bit 4 t))"

definition top16 :: "u32 list" where
  "top16 = map (\<lambda>a. 0xFFFFFFF0 + of_nat a) [0..<16]"

section \<open>Board::tilt, line by line\<close>

lemma merges_anim_call [simp]:
  "merges (anim_call (Merge a b c d) an) = (if an = None then 0 else Suc (merges an))"
  "merges None = 0"
  "merges (anim_call (Slide a b d) an) = merges an"
  "merges (anim_call (Blank a) an) = merges an"
  "merges (anim_call (New_tile n d) an) = merges an"
  "anim_call ev an = None \<longleftrightarrow> an = None"
  by (auto simp: merges_def anim_call_def split: option.splits)

lemma cellint_step: "cellint b d k + d = cellint b d (Suc k)"
  by (simp add: cellint_def algebra_simps)

lemma cellint_inj: "d \<noteq> 0 \<Longrightarrow> cellint b d j = cellint b d k \<longleftrightarrow> j = k"
  by (simp add: cellint_def)

lemma cellint_0: "cellint b d 0 = b"
  by (simp add: cellint_def)

lemma cellpos_inj: "line_ok b d m n \<Longrightarrow> j < m \<Longrightarrow> k < m \<Longrightarrow> cellpos b d j = cellpos b d k \<longleftrightarrow> j = k"
  by (auto simp: line_ok_def cellpos_def cellint_def nat_eq_iff)

lemma cellpos_lt: "line_ok b d m n \<Longrightarrow> j < m \<Longrightarrow> cellpos b d j < n"
  by (auto simp: line_ok_def cellpos_def cellint_def)

lemma nat_cell: "nat (cellint b d j) = cellpos b d j"
  by (simp add: cellpos_def)

lemma gain_snoc [simp]: "gain (ms @ [v]) = gain ms + push_bit (unat v + 1) 1" "gain [] = 0"
  by (simp_all add: gain_def)

lemma rinv_visit:
  assumes "rinv j r"
  shows "rinv (Suc j) (row_visit V r j)"
  using assms by (auto simp: rinv_def row_visit_def)

lemma sim_visit:
  assumes ok: "line_ok b d m (length (s_state s0))" and j: "j < m"
    and inv: "rinv j r" and sim: "sim b d s0 r s"
    and V: "V ! j = s_state s0 ! cellpos b d j"
  shows "sim b d s0 (row_visit V r j) (tilt_visit d s (cellint b d j))"
proof -
  let ?t = "length (r_out r)"
  have tj: "?t \<le> j" using inv by (simp add: rinv_def)
  have tm: "?t < m" using tj j by simp
  have notin: "cellpos b d j \<notin> cellpos b d ` {..<?t}"
    using cellpos_inj[OF ok j] tj j by (auto simp: image_iff) 
  have rd: "s_state s ! cellpos b d j = V ! j"
    using sim notin V by (simp add: sim_def)
  have tlt: "cellpos b d ?t < length (s_state s)"
    using cellpos_lt[OF ok tm] sim by (simp add: sim_def)
  have upd: "\<And>x. (\<forall>k<Suc ?t. (s_state s)[cellpos b d ?t := x] ! cellpos b d k = (r_out r @ [x]) ! k)
     \<and> (\<forall>q. q \<notin> cellpos b d ` {..<Suc ?t} \<longrightarrow> (s_state s)[cellpos b d ?t := x] ! q = s_state s0 ! q)"
  proof (intro conjI allI impI)
    fix x k assume k: "k < Suc ?t"
    show "(s_state s)[cellpos b d ?t := x] ! cellpos b d k = (r_out r @ [x]) ! k"
    proof (cases "k = ?t")
      case True then show ?thesis using tlt by simp
    next
      case False
      then have kt: "k < ?t" using k by simp
      then have "cellpos b d k \<noteq> cellpos b d ?t"
        using cellpos_inj[OF ok _ tm, of k] tm by auto
      then show ?thesis using sim kt by (simp add: sim_def nth_append)
    qed
  next
    fix x q assume q: "q \<notin> cellpos b d ` {..<Suc ?t}"
    then have "q \<noteq> cellpos b d ?t" "q \<notin> cellpos b d ` {..<?t}" by (auto simp: lessThan_Suc)
    then show "(s_state s)[cellpos b d ?t := x] ! q = s_state s0 ! q"
      using sim by (simp add: sim_def)
  qed
  have dn: "d \<noteq> 0" using ok by (simp add: line_ok_def)
  note lfne = cellint_inj[OF dn]
  have f: "length (s_state s) = length (s_state s0)"
    "s_to s = cellint b d ?t" "s_last_value s = r_lv r" "s_last_from s = cellint b d (r_lf r)"
    "s_moved s = (s_moved s0 \<or> r_moved r)"
    "s_score s = map_option (\<lambda>sc. sc + gain (r_merged r)) (s_score s0)"
    "(s_anim s = None \<longleftrightarrow> s_anim s0 = None)"
    "merges (s_anim s) = (if s_anim s0 = None then 0 else merges (s_anim s0) + length (r_merged r))"
    using sim by (simp_all add: sim_def)
  have old: "(\<forall>k<?t. s_state s ! cellpos b d k = r_out r ! k)"
     "(\<forall>q. q \<notin> cellpos b d ` {..<?t} \<longrightarrow> s_state s ! q = s_state s0 ! q)"
    using sim by (simp_all add: sim_def)
  have natto: "nat (s_to s) = cellpos b d ?t" by (simp add: f cellpos_def)
  note natfrom = nat_cell
  consider (zero) "V ! j = 0" | (first) "V ! j \<noteq> 0" "r_lv r = 0"
    | (merge) "V ! j \<noteq> 0" "r_lv r \<noteq> 0" "r_lv r = V ! j"
    | (slide) "V ! j \<noteq> 0" "r_lv r \<noteq> 0" "r_lv r \<noteq> V ! j" by blast
  then show ?thesis
  proof cases
    case zero
    then show ?thesis using sim rd by (simp add: row_visit_def tilt_visit_def natfrom)
  next
    case first
    then show ?thesis using f old rd
      by (simp add: row_visit_def tilt_visit_def natfrom sim_def)
  next
    case merge
    have sc: "map_option (\<lambda>sc. sc + push_bit (unat (r_lv r) + 1) 1) (s_score s)
        = map_option (\<lambda>sc. sc + gain (r_merged r @ [r_lv r])) (s_score s0)"
      by (cases "s_score s0") (simp_all add: f)
    have an: "merges (anim_call (Merge (s_last_from s) (cellint b d j) (s_to s) (r_lv r)) (s_anim s))
        = (if s_anim s0 = None then 0 else merges (s_anim s0) + length (r_merged r @ [r_lv r]))"
      using f(7,8) by (cases "s_anim s"; cases "s_anim s0") (simp_all)
    show ?thesis using merge rd upd[of "r_lv r + 1"] f sc an
      by (simp add: row_visit_def tilt_visit_def natfrom natto sim_def cellint_step)
  next
    case slide
    show ?thesis using slide rd upd[of "r_lv r"] f lfne
      by (simp add: row_visit_def tilt_visit_def natfrom natto sim_def cellint_step)
  qed
qed

lemma line_cells_cellint: "line_cells b d m = map (cellint b d) [0..<m]"
  by (simp add: line_cells_def cellint_def)

lemma sim_init:
  "sim b d s row_init (s\<lparr>s_to := b, s_last_value := 0, s_last_from := b\<rparr>)"
  by (cases "s_score s") (simp_all add: sim_def row_init_def cellint_0)

lemma sim_scan:
  assumes ok: "line_ok b d m (length (s_state s0))"
    and V: "\<forall>j<m. V ! j = s_state s0 ! cellpos b d j"
    and init: "sim b d s0 r s" "rinv 0 r"
  shows "j \<le> m \<Longrightarrow> sim b d s0 (foldl (row_visit V) r [0..<j]) (foldl (tilt_visit d) s (map (cellint b d) [0..<j]))
      \<and> rinv j (foldl (row_visit V) r [0..<j])"
proof (induction j)
  case 0
  then show ?case using init by simp
next
  case (Suc j)
  then have IH: "sim b d s0 (foldl (row_visit V) r [0..<j]) (foldl (tilt_visit d) s (map (cellint b d) [0..<j]))"
    "rinv j (foldl (row_visit V) r [0..<j])" and j: "j < m" by simp_all
  show ?case
    using sim_visit[OF ok j IH(2) IH(1)] V j rinv_visit[OF IH(2)] by simp
qed

lemma rinv_flush: "rinv j r \<Longrightarrow> length (r_out (row_flush r)) \<le> j"
  by (auto simp: rinv_def row_flush_def)

lemma sim_flush:
  assumes ok: "line_ok b d m (length (s_state s0))"
    and inv: "rinv m r" and sim: "sim b d s0 r s"
  shows "sim b d s0 (row_flush r) (tilt_flush d s)"
proof (cases "r_lv r = 0")
  case True
  then show ?thesis using sim by (simp add: row_flush_def tilt_flush_def sim_def)
next
  case False
  let ?t = "length (r_out r)"
  have tm: "?t < m" using inv False by (simp add: rinv_def)
  have dn: "d \<noteq> 0" using ok by (simp add: line_ok_def)
  have f: "length (s_state s) = length (s_state s0)"
    "s_to s = cellint b d ?t" "s_last_value s = r_lv r" "s_last_from s = cellint b d (r_lf r)"
    "s_moved s = (s_moved s0 \<or> r_moved r)"
    "s_score s = map_option (\<lambda>sc. sc + gain (r_merged r)) (s_score s0)"
    "(s_anim s = None \<longleftrightarrow> s_anim s0 = None)"
    "merges (s_anim s) = (if s_anim s0 = None then 0 else merges (s_anim s0) + length (r_merged r))"
    using sim by (simp_all add: sim_def)
  have tlt: "cellpos b d ?t < length (s_state s)"
    using cellpos_lt[OF ok tm] f by simp
  have upd: "(\<forall>k<Suc ?t. (s_state s)[cellpos b d ?t := r_lv r] ! cellpos b d k = (r_out r @ [r_lv r]) ! k)
     \<and> (\<forall>q. q \<notin> cellpos b d ` {..<Suc ?t} \<longrightarrow> (s_state s)[cellpos b d ?t := r_lv r] ! q = s_state s0 ! q)"
  proof (intro conjI allI impI)
    fix k assume k: "k < Suc ?t"
    show "(s_state s)[cellpos b d ?t := r_lv r] ! cellpos b d k = (r_out r @ [r_lv r]) ! k"
    proof (cases "k = ?t")
      case True then show ?thesis using tlt by simp
    next
      case False
      then have kt: "k < ?t" using k by simp
      then have "cellpos b d k \<noteq> cellpos b d ?t"
        using cellpos_inj[OF ok _ tm, of k] tm by auto
      then show ?thesis using sim kt by (simp add: sim_def nth_append)
    qed
  next
    fix q assume q: "q \<notin> cellpos b d ` {..<Suc ?t}"
    then have "q \<noteq> cellpos b d ?t" "q \<notin> cellpos b d ` {..<?t}" by (auto simp: lessThan_Suc)
    then show "(s_state s)[cellpos b d ?t := r_lv r] ! q = s_state s0 ! q"
      using sim by (simp add: sim_def)
  qed
  have natto: "nat (s_to s) = cellpos b d ?t" by (simp add: f cellpos_def)
  show ?thesis using False upd f cellint_inj[OF dn]
    by (simp add: row_flush_def tilt_flush_def natto nat_cell sim_def cellint_step)
qed

lemma dropWhile_cells:
  assumes "d \<noteq> 0" "t \<le> m"
  shows "dropWhile (\<lambda>c. c \<noteq> cellint b d t) (map (cellint b d) [0..<m]) = map (cellint b d) [t..<m]"
proof -
  have split: "[0..<m] = [0..<t] @ [t..<m]"
    using assms(2) by (metis le_Suc_ex upt_add_eq_append zero_le)
  have a: "\<forall>c\<in>set (map (cellint b d) [0..<t]). c \<noteq> cellint b d t"
    using assms(1) by (auto simp: cellint_inj)
  have b: "dropWhile (\<lambda>c. c \<noteq> cellint b d t) (map (cellint b d) [t..<m]) = map (cellint b d) [t..<m]"
  proof (cases "t < m")
    case True
    then show ?thesis by (simp add: upt_conv_Cons)
  next
    case False
    then show ?thesis by simp
  qed
  show ?thesis
    unfolding split map_append using a b by (subst dropWhile_append2) auto
qed

lemma blank_fold:
  assumes ok: "line_ok b d m0 (length (s_state s))"
  shows "t \<le> m \<Longrightarrow> m \<le> m0 \<Longrightarrow> blanked b d t m s (foldl (tilt_blank d) s (map (cellint b d) [t..<m]))"
proof (induction m)
  case 0
  then show ?case by (simp add: blanked_def)
next
  case (Suc m)
  show ?case
  proof (cases "t = Suc m")
    case True
    then show ?thesis by (auto simp add: blanked_def)
  next
    case False
    then have tm: "t \<le> m" and mm: "m < m0" using Suc.prems by simp_all
    let ?s1 = "foldl (tilt_blank d) s (map (cellint b d) [t..<m])"
    have IH: "blanked b d t m s ?s1" using Suc.IH tm mm by simp
    have lt: "cellpos b d m < length (s_state ?s1)"
      using cellpos_lt[OF ok mm] IH by (simp add: blanked_def)
    have ne: "\<And>k. k < m \<Longrightarrow> cellpos b d k \<noteq> cellpos b d m"
      using cellpos_inj[OF ok _ mm] mm by auto
    have img: "cellpos b d ` {t..<Suc m} = insert (cellpos b d m) (cellpos b d ` {t..<m})"
      using tm by (auto simp: atLeastLessThanSuc)
    have "blanked b d t (Suc m) s (tilt_blank d ?s1 (cellint b d m))"
      using IH lt ne unfolding blanked_def img
      by (auto simp: tilt_blank_def nat_cell nth_list_update less_Suc_eq)
    then show ?thesis using tm by simp
  qed
qed

lemma tilt_line_row:
  assumes ok: "line_ok b d m (length (s_state s))"
    and V: "V = map (\<lambda>j. s_state s ! cellpos b d j) [0..<m]"
  defines "s' \<equiv> tilt_line d m s b"
  shows "length (s_state s') = length (s_state s)"
    and "\<forall>k<m. s_state s' ! cellpos b d k = row_result V ! k"
    and "\<forall>q. q \<notin> cellpos b d ` {..<m} \<longrightarrow> s_state s' ! q = s_state s ! q"
    and "s_moved s' = (s_moved s \<or> r_moved (row_scan V))"
    and "s_score s' = map_option (\<lambda>sc. sc + gain (r_merged (row_scan V))) (s_score s)"
    and "s_anim s' = None \<longleftrightarrow> s_anim s = None"
    and "merges (s_anim s') = (if s_anim s = None then 0 else merges (s_anim s) + length (r_merged (row_scan V)))"
proof -
  have lenV: "length V = m" and Vj: "\<forall>j<m. V ! j = s_state s ! cellpos b d j"
    using V by simp_all
  let ?si = "s\<lparr>s_to := b, s_last_value := 0, s_last_from := b\<rparr>"
  let ?r1 = "foldl (row_visit V) row_init [0..<m]"
  let ?s1 = "foldl (tilt_visit d) ?si (map (cellint b d) [0..<m])"
  have dn: "d \<noteq> 0" using ok by (simp add: line_ok_def)
  have "rinv 0 row_init" by (simp add: rinv_def row_init_def)
  from sim_scan[OF ok Vj sim_init this, of m]
  have s1: "sim b d s ?r1 ?s1" and i1: "rinv m ?r1" by simp_all
  let ?r2 = "row_flush ?r1" and ?s2 = "tilt_flush d ?s1"
  have s2: "sim b d s ?r2 ?s2" by (rule sim_flush[OF ok i1 s1])
  have r2: "?r2 = row_scan V" by (simp add: row_scan_def lenV)
  let ?t = "length (r_out ?r2)"
  have tm: "?t \<le> m" using rinv_flush[OF i1] .
  have to2: "s_to ?s2 = cellint b d ?t" using s2 by (simp add: sim_def)
  have s'_eq: "s' = foldl (tilt_blank d) ?s2 (map (cellint b d) [?t..<m])"
    unfolding s'_def tilt_line_def Let_def line_cells_cellint to2
    by (simp only: dropWhile_cells[OF dn tm])
  have len2: "length (s_state ?s2) = length (s_state s)" using s2 by (simp add: sim_def)
  have ok2: "line_ok b d m (length (s_state ?s2))" using ok len2 by simp
  have bl: "blanked b d ?t m ?s2 s'"
    unfolding s'_eq by (rule blank_fold[OF ok2]) (use tm in simp_all)
  show "length (s_state s') = length (s_state s)"
    using bl len2 by (simp add: blanked_def)
  show "\<forall>k<m. s_state s' ! cellpos b d k = row_result V ! k"
  proof (intro allI impI)
    fix k assume k: "k < m"
    show "s_state s' ! cellpos b d k = row_result V ! k"
    proof (cases "k < ?t")
      case True
      then have "cellpos b d k \<notin> cellpos b d ` {?t..<m}"
        using cellpos_inj[OF ok k] by (auto simp: image_iff)
      then have "s_state s' ! cellpos b d k = s_state ?s2 ! cellpos b d k"
        using bl by (simp add: blanked_def)
      also have "\<dots> = r_out ?r2 ! k" using s2 True by (simp add: sim_def)
      finally show ?thesis using True by (simp add: row_result_def r2 nth_append)
    next
      case False
      then have "s_state s' ! cellpos b d k = 0" using bl k by (simp add: blanked_def)
      then show ?thesis using False k lenV tm by (simp add: row_result_def r2[symmetric] nth_append)
    qed
  qed
  show "\<forall>q. q \<notin> cellpos b d ` {..<m} \<longrightarrow> s_state s' ! q = s_state s ! q"
  proof (intro allI impI)
    fix q assume q: "q \<notin> cellpos b d ` {..<m}"
    then have "q \<notin> cellpos b d ` {?t..<m}" "q \<notin> cellpos b d ` {..<?t}" using tm by auto
    then show "s_state s' ! q = s_state s ! q"
      using bl s2 by (simp add: blanked_def sim_def)
  qed
  show "s_moved s' = (s_moved s \<or> r_moved (row_scan V))"
    using bl s2 by (simp add: blanked_def sim_def r2)
  show "s_score s' = map_option (\<lambda>sc. sc + gain (r_merged (row_scan V))) (s_score s)"
    using bl s2 by (simp add: blanked_def sim_def r2)
  show "s_anim s' = None \<longleftrightarrow> s_anim s = None"
    using bl s2 by (simp add: blanked_def sim_def)
  show "merges (s_anim s') = (if s_anim s = None then 0 else merges (s_anim s) + length (r_merged (row_scan V)))"
    using bl s2 by (simp add: blanked_def sim_def r2)
qed

lemma row_fold_slide:
  "j \<le> length V \<Longrightarrow>
   r_out (row_flush (foldl (row_visit V) r [j..<length V])) = r_out r @ slide (r_lv r) (drop j V) \<and>
   r_merged (row_flush (foldl (row_visit V) r [j..<length V])) = r_merged r @ slide_merged (r_lv r) (drop j V) \<and>
   (r_moved (row_flush (foldl (row_visit V) r [j..<length V])) \<longleftrightarrow>
      r_moved r \<or> slide_moved (length (r_out r)) (r_lf r) (r_lv r) j (drop j V))"
proof (induction "length V - j" arbitrary: j r)
  case 0
  then show ?case by (auto simp: row_flush_def)
next
  case (Suc n)
  then have j: "j < length V" and n: "n = length V - Suc j" by simp_all
  have u: "[j..<length V] = j # [Suc j..<length V]" using j by (simp add: upt_conv_Cons)
  have d: "drop j V = V ! j # drop (Suc j) V" using j by (simp add: Cons_nth_drop_Suc)
  have IH: "\<And>r. r_out (row_flush (foldl (row_visit V) r [Suc j..<length V])) = r_out r @ slide (r_lv r) (drop (Suc j) V)"
    "\<And>r. r_merged (row_flush (foldl (row_visit V) r [Suc j..<length V])) = r_merged r @ slide_merged (r_lv r) (drop (Suc j) V)"
    "\<And>r. r_moved (row_flush (foldl (row_visit V) r [Suc j..<length V])) \<longleftrightarrow>
      r_moved r \<or> slide_moved (length (r_out r)) (r_lf r) (r_lv r) (Suc j) (drop (Suc j) V)"
    using Suc.hyps(1)[OF n] j by simp_all
  show ?case
    unfolding u d foldl_Cons IH
    by (auto simp: row_visit_def)
qed

lemma row_scan_slide:
  "r_out (row_scan V) = slide 0 V" "r_merged (row_scan V) = slide_merged 0 V"
  "r_moved (row_scan V) = slide_moved 0 0 0 0 V"
  using row_fold_slide[of 0 V row_init] by (simp_all add: row_scan_def row_init_def)

lemma row_result_slide: "row_result V = slide 0 V @ replicate (length V - length (slide 0 V)) 0"
  by (simp add: row_result_def row_scan_slide)

lemma rep4: "replicate 4 x = [x,x,x,x]" "replicate 3 x = [x,x,x]" "replicate 2 x = [x,x]"
  by (simp_all add: numeral_eq_Suc)

lemma slide_moved4: "slide_moved 0 0 0 0 [a,b,c,d] \<longleftrightarrow> slide 0 [a,b,c,d] @ replicate (4 - length (slide 0 [a,b,c,d])) 0 \<noteq> [a,b,c,d]"
  by (cases "a = 0"; cases "b = 0"; cases "c = 0"; cases "d = 0") (auto simp: rep4)

lemma lines_fold:
  assumes ok: "grid_ok b0 M d n m (length (s_state s0))"
  shows "k \<le> n \<Longrightarrow> lines_done b0 M d m k s0 (foldl (tilt_line d m) s0 (map (cellint b0 M) [0..<k]))"
proof (induction k)
  case 0
  then show ?case by (cases "s_score s0") (simp_all add: lines_done_def)
next
  case (Suc k)
  then have k: "k < n" by simp
  let ?s = "foldl (tilt_line d m) s0 (map (cellint b0 M) [0..<k])"
  let ?b = "cellint b0 M k"
  let ?V = "gline b0 M d m (s_state s0) k"
  have IH: "lines_done b0 M d m k s0 ?s" using Suc by simp
  have len: "length (s_state ?s) = length (s_state s0)" using IH by (simp add: lines_done_def)
  have lok: "line_ok ?b d m (length (s_state ?s))" using ok k len by (simp add: grid_ok_def)
  have inj: "\<And>i i' j j'. i < n \<Longrightarrow> i' < n \<Longrightarrow> j < m \<Longrightarrow> j' < m
      \<Longrightarrow> gpos b0 M d i j = gpos b0 M d i' j' \<Longrightarrow> i = i' \<and> j = j'"
    using ok by (simp add: grid_ok_def)
  have disj: "\<And>i j. i < k \<Longrightarrow> j < m \<Longrightarrow> gpos b0 M d k j \<notin> gpos b0 M d i ` {..<m}"
  proof
    fix i j assume a: "i < k" "j < m" "gpos b0 M d k j \<in> gpos b0 M d i ` {..<m}"
    then obtain x where x: "x < m" "gpos b0 M d k j = gpos b0 M d i x" by auto
    from inj[OF k _ a(2) x(1) x(2)] a(1) k show False by simp
  qed
  have V: "?V = map (\<lambda>j. s_state ?s ! cellpos ?b d j) [0..<m]"
    unfolding gline_def
  proof (rule map_cong[OF refl])
    fix j assume "j \<in> set [0..<m]"
    then have j: "j < m" by simp
    have "\<forall>i<k. gpos b0 M d k j \<notin> gpos b0 M d i ` {..<m}" using disj j by blast
    then show "s_state s0 ! gpos b0 M d k j = s_state ?s ! cellpos ?b d j"
      using IH by (simp add: lines_done_def gpos_def)
  qed
  note L = tilt_line_row[OF lok V]
  let ?s' = "tilt_line d m ?s ?b"
  have "lines_done b0 M d m (Suc k) s0 ?s'"
    unfolding lines_done_def
  proof (intro conjI allI impI)
    show "length (s_state ?s') = length (s_state s0)" using L(1) len by simp
  next
    fix i j assume i: "i < Suc k" and j: "j < m"
    show "s_state ?s' ! gpos b0 M d i j = row_result (gline b0 M d m (s_state s0) i) ! j"
    proof (cases "i = k")
      case True
      then show ?thesis using L(2) j by (simp add: gpos_def)
    next
      case False
      then have ik: "i < k" using i by simp
      have "gpos b0 M d i j \<notin> gpos b0 M d k ` {..<m}"
      proof
        assume "gpos b0 M d i j \<in> gpos b0 M d k ` {..<m}"
        then obtain x where x: "x < m" "gpos b0 M d i j = gpos b0 M d k x" by auto
        from inj[OF _ k j x(1) x(2)] ik k show False by simp
      qed
      then have "gpos b0 M d i j \<notin> cellpos ?b d ` {..<m}"
        by (simp add: gpos_def[abs_def])
      then have "s_state ?s' ! gpos b0 M d i j = s_state ?s ! gpos b0 M d i j"
        using L(3) by simp
      then show ?thesis using IH ik j by (simp add: lines_done_def)
    qed
  next
    fix q assume q: "\<forall>i<Suc k. q \<notin> gpos b0 M d i ` {..<m}"
    then have "q \<notin> cellpos ?b d ` {..<m}" by (auto simp: gpos_def)
    then have "s_state ?s' ! q = s_state ?s ! q" using L(3) by simp
    then show "s_state ?s' ! q = s_state s0 ! q" using IH q by (simp add: lines_done_def)
  next
    show "s_moved ?s' = (s_moved s0 \<or> (\<exists>i<Suc k. r_moved (row_scan (gline b0 M d m (s_state s0) i))))"
      using L(4) IH by (auto simp: lines_done_def less_Suc_eq)
  next
    show "s_score ?s' = map_option (\<lambda>sc. sc + (\<Sum>i<Suc k. gain (r_merged (row_scan (gline b0 M d m (s_state s0) i))))) (s_score s0)"
      using L(5) IH by (cases "s_score s0") (simp_all add: lines_done_def)
  next
    show "(s_anim ?s' = None) = (s_anim s0 = None)" using L(6) IH by (simp add: lines_done_def)
  next
    show "merges (s_anim ?s') = (if s_anim s0 = None then 0
        else merges (s_anim s0) + (\<Sum>i<Suc k. length (r_merged (row_scan (gline b0 M d m (s_state s0) i)))))"
      using L(7) IH by (simp add: lines_done_def)
  qed
  then show ?case by simp
qed

lemma tpos_eq:
  "tpos (- 1) 0 i j = 4 * i + j"
  "tpos 0 (- 1) i j = i + 4 * j"
  "i < 4 \<Longrightarrow> j < 4 \<Longrightarrow> tpos 1 0 i j = 15 - 4 * i - j"
  "i < 4 \<Longrightarrow> j < 4 \<Longrightarrow> tpos 0 1 i j = 15 - i - 4 * j"
  by (simp_all add: tpos_def gpos_def cellpos_def cellint_def t_begin_def t_major_def t_minor_def nat_eq_iff)

lemma grid_left: "grid_ok 0 4 1 4 4 16"
  unfolding grid_ok_def line_ok_def gpos_def cellpos_def cellint_def
  apply (intro conjI allI impI)
  apply (simp_all add: nat_eq_iff)
  apply presburger+
  done

lemma grid_right: "grid_ok 15 (- 4) (- 1) 4 4 16"
  unfolding grid_ok_def line_ok_def gpos_def cellpos_def cellint_def
  apply (intro conjI allI impI)
  apply (simp_all add: nat_eq_iff)
  apply presburger+
  done

lemma grid_up: "grid_ok 0 1 4 4 4 16"
  unfolding grid_ok_def line_ok_def gpos_def cellpos_def cellint_def
  apply (intro conjI allI impI)
  apply (simp_all add: nat_eq_iff)
  apply presburger+
  done

lemma grid_down: "grid_ok 15 (- 1) (- 4) 4 4 16"
  unfolding grid_ok_def line_ok_def gpos_def cellpos_def cellint_def
  apply (intro conjI allI impI)
  apply (simp_all add: nat_eq_iff)
  apply presburger+
  done

lemma grid_dir:
  assumes "dir_ok dx dy"
  shows "grid_ok (t_begin dx dy) (t_major dx dy) (t_minor dx dy) 4 4 16"
  using assms grid_left grid_right grid_up grid_down unfolding dir_ok_def
  by (auto simp: t_begin_def t_major_def t_minor_def)

lemma tilt_some:
  assumes d: "dir_ok dx dy"
  shows "tilt dx dy st anim score =
     (let s = foldl (tilt_line (t_minor dx dy) 4)
                \<lparr>s_state = st, s_to = t_begin dx dy, s_last_value = 0, s_last_from = t_begin dx dy,
                  s_moved = False, s_score = score, s_anim = anim\<rparr>
                (map (cellint (t_begin dx dy) (t_major dx dy)) [0..<4])
      in if anim_room (s_anim s) then Some (s_moved s, s_state s, s_anim s, s_score s) else None)"
  using d unfolding dir_ok_def
  by (auto simp: tilt_def Let_def t_begin_def t_minor_def t_major_def TILES_X_def TILES_Y_def NUM_TILES_def
      line_cells_cellint)

lemma tilt_rows:
  assumes d: "dir_ok dx dy" and len: "length st = 16"
    and t: "tilt dx dy st anim score = Some (mv, st', an', sc')"
  shows "length st' = 16"
    and "\<forall>i<4. \<forall>j<4. st' ! tpos dx dy i j = row_result (tline dx dy st i) ! j"
    and "mv = (\<exists>i<4. r_moved (row_scan (tline dx dy st i)))"
    and "sc' = map_option (\<lambda>sc. sc + (\<Sum>i<4. gain (r_merged (row_scan (tline dx dy st i))))) score"
    and "an' = None \<longleftrightarrow> anim = None"
    and "merges an' = (if anim = None then 0 else merges anim + (\<Sum>i<4. length (r_merged (row_scan (tline dx dy st i)))))"
proof -
  let ?si = "\<lparr>s_state = st, s_to = t_begin dx dy, s_last_value = 0, s_last_from = t_begin dx dy,
                  s_moved = False, s_score = score, s_anim = anim\<rparr>"
  let ?s = "foldl (tilt_line (t_minor dx dy) 4) ?si (map (cellint (t_begin dx dy) (t_major dx dy)) [0..<4])"
  have g: "grid_ok (t_begin dx dy) (t_major dx dy) (t_minor dx dy) 4 4 (length (s_state ?si))"
    using grid_dir[OF d] len by simp
  have L: "lines_done (t_begin dx dy) (t_major dx dy) (t_minor dx dy) 4 4 ?si ?s"
    by (rule lines_fold[OF g]) simp
  have r: "mv = s_moved ?s" "st' = s_state ?s" "an' = s_anim ?s" "sc' = s_score ?s"
    using t unfolding tilt_some[OF d] Let_def by (simp_all split: if_splits)
  have gl: "\<And>i. gline (t_begin dx dy) (t_major dx dy) (t_minor dx dy) 4 st i = tline dx dy st i"
    by (simp add: gline_def tline_def tpos_def)
  show "length st' = 16" using L len by (simp add: lines_done_def r)
  show "\<forall>i<4. \<forall>j<4. st' ! tpos dx dy i j = row_result (tline dx dy st i) ! j"
    using L by (simp add: lines_done_def r gl tpos_def)
  show "mv = (\<exists>i<4. r_moved (row_scan (tline dx dy st i)))"
    using L by (simp add: lines_done_def r gl)
  show "sc' = map_option (\<lambda>sc. sc + (\<Sum>i<4. gain (r_merged (row_scan (tline dx dy st i))))) score"
    using L by (simp add: lines_done_def r gl)
  show "an' = None \<longleftrightarrow> anim = None"
    using L by (simp add: lines_done_def r)
  show "merges an' = (if anim = None then 0 else merges anim + (\<Sum>i<4. length (r_merged (row_scan (tline dx dy st i)))))"
    using L by (simp add: lines_done_def r gl)
qed

text \<open>The room a tilt needs in the animation state: a line of \<open>m\<close> cells adds at most
  \<open>3 * m / 2\<close> tile animations and \<open>m / 2\<close> score animations, so a tilt of the board at
  most 24 and 8, and a tilt that starts from a reset animation state returns.\<close>

lemma ntiles_anim_call [simp]:
  "ntiles (anim_call ev an) = (if an = None then 0 else ntiles an + call_tiles ev)"
  "nscores (anim_call ev an) = (if an = None then 0 else nscores an + call_scores ev)"
  "ntiles None = 0" "nscores None = 0" "ntiles (Some []) = 0" "nscores (Some []) = 0"
  by (auto simp: ntiles_def nscores_def anim_call_def split: option.splits)

lemma visit_tiles:
  "2 * ntiles (s_anim (tilt_visit d s c)) + (if s_last_value (tilt_visit d s c) \<noteq> 0 then 3 else 0)
     \<le> 2 * ntiles (s_anim s) + (if s_last_value s \<noteq> 0 then 3 else 0) + 3"
  by (simp add: tilt_visit_def)

lemma visit_scores:
  "2 * nscores (s_anim (tilt_visit d s c)) + (if s_last_value (tilt_visit d s c) \<noteq> 0 then 1 else 0)
     \<le> 2 * nscores (s_anim s) + (if s_last_value s \<noteq> 0 then 1 else 0) + 1"
  by (simp add: tilt_visit_def)

lemma fold_visit_tiles:
  "2 * ntiles (s_anim (foldl (tilt_visit d) s cs)) +
      (if s_last_value (foldl (tilt_visit d) s cs) \<noteq> 0 then 3 else 0)
     \<le> 2 * ntiles (s_anim s) + (if s_last_value s \<noteq> 0 then 3 else 0) + 3 * length cs"
proof (induction cs arbitrary: s)
  case Nil
  show ?case by simp
next
  case (Cons c cs)
  show ?case using Cons.IH[of "tilt_visit d s c"] visit_tiles[of d s c] by simp
qed

lemma fold_visit_scores:
  "2 * nscores (s_anim (foldl (tilt_visit d) s cs)) +
      (if s_last_value (foldl (tilt_visit d) s cs) \<noteq> 0 then 1 else 0)
     \<le> 2 * nscores (s_anim s) + (if s_last_value s \<noteq> 0 then 1 else 0) + length cs"
proof (induction cs arbitrary: s)
  case Nil
  show ?case by simp
next
  case (Cons c cs)
  show ?case using Cons.IH[of "tilt_visit d s c"] visit_scores[of d s c] by simp
qed

lemma flush_room:
  "2 * ntiles (s_anim (tilt_flush d s)) \<le> 2 * ntiles (s_anim s) + (if s_last_value s \<noteq> 0 then 3 else 0)"
  "nscores (s_anim (tilt_flush d s)) = nscores (s_anim s)"
  by (simp_all add: tilt_flush_def)

lemma blank_room:
  "ntiles (s_anim (foldl (tilt_blank d) s cs)) = ntiles (s_anim s)"
  "nscores (s_anim (foldl (tilt_blank d) s cs)) = nscores (s_anim s)"
  by (induction cs arbitrary: s) (simp_all add: tilt_blank_def)

lemma line_room:
  "2 * ntiles (s_anim (tilt_line d m s b)) \<le> 2 * ntiles (s_anim s) + 3 * m"
  "2 * nscores (s_anim (tilt_line d m s b)) \<le> 2 * nscores (s_anim s) + m"
proof -
  let ?s1 = "s\<lparr>s_to := b, s_last_value := 0, s_last_from := b\<rparr>"
  let ?s2 = "foldl (tilt_visit d) ?s1 (line_cells b d m)"
  have l: "length (line_cells b d m) = m" by (simp add: line_cells_def)
  have "2 * ntiles (s_anim (tilt_flush d ?s2)) \<le> 2 * ntiles (s_anim s) + 3 * m"
    using flush_room(1)[of d ?s2] fold_visit_tiles[of d ?s1 "line_cells b d m"] l by simp
  then show "2 * ntiles (s_anim (tilt_line d m s b)) \<le> 2 * ntiles (s_anim s) + 3 * m"
    by (simp add: tilt_line_def Let_def blank_room)
  have "2 * nscores (s_anim (tilt_flush d ?s2)) \<le> 2 * nscores (s_anim s) + m"
    using flush_room(2)[of d ?s2] fold_visit_scores[of d ?s1 "line_cells b d m"] l by simp
  then show "2 * nscores (s_anim (tilt_line d m s b)) \<le> 2 * nscores (s_anim s) + m"
    by (simp add: tilt_line_def Let_def blank_room)
qed

lemma lines_room:
  "2 * ntiles (s_anim (foldl (tilt_line d m) s bs)) \<le> 2 * ntiles (s_anim s) + 3 * m * length bs"
  "2 * nscores (s_anim (foldl (tilt_line d m) s bs)) \<le> 2 * nscores (s_anim s) + m * length bs"
proof (induction bs arbitrary: s)
  case Nil
  {
    case 1 show ?case by simp
  next
    case 2 show ?case by simp
  }
next
  case (Cons b bs)
  {
    case 1
    show ?case using Cons.IH(1)[of "tilt_line d m s b"] line_room(1)[of d m s b] by simp
  next
    case 2
    show ?case using Cons.IH(2)[of "tilt_line d m s b"] line_room(2)[of d m s b] by simp
  }
qed

lemma tilt_defined:
  assumes "dir_ok dx dy" and "ntiles anim \<le> 8" and "nscores anim \<le> 8"
  shows "\<exists>mv st' an' sc'. tilt dx dy st anim score = Some (mv, st', an', sc')"
proof -
  let ?si = "\<lparr>s_state = st, s_to = t_begin dx dy, s_last_value = 0, s_last_from = t_begin dx dy,
                  s_moved = False, s_score = score, s_anim = anim\<rparr>"
  let ?s = "foldl (tilt_line (t_minor dx dy) 4) ?si (map (cellint (t_begin dx dy) (t_major dx dy)) [0..<4])"
  have "anim_room (s_anim ?s)"
    using lines_room[of "t_minor dx dy" 4 ?si "map (cellint (t_begin dx dy) (t_major dx dy)) [0..<4]"] assms(2,3)
    by (simp add: anim_room_def NUM_TILES_def)
  then show ?thesis by (simp add: tilt_some[OF assms(1)] Let_def)
qed

lemma tpos_surj:
  assumes "dir_ok dx dy" "q < 16"
  shows "\<exists>i<4. \<exists>j<4. tpos dx dy i j = q"
proof -
  define r where "r = 15 - q"
  have b: "q div 4 < 4" "q mod 4 < 4" "r div 4 < 4" "r mod 4 < 4"
    using assms(2) by (simp_all add: r_def less_mult_imp_div_less)
  have e: "4 * (q div 4) + q mod 4 = q" "4 * (r div 4) + r mod 4 = r" by simp_all
  have rq: "r + q = 15" using assms(2) by (simp add: r_def)
  have e1: "4 * (q div 4) + q mod 4 = q"
    "q mod 4 + 4 * (q div 4) = q"
    "15 - 4 * (r div 4) - r mod 4 = q"
    "15 - r mod 4 - 4 * (r div 4) = q"
    using e rq by linarith+
  show ?thesis
    using assms(1) unfolding dir_ok_def
    apply (elim insertE emptyE)
    subgoal using b e1 by (intro exI[of _ "q div 4"] conjI exI[of _ "q mod 4"]) (simp_all add: tpos_eq)
    subgoal using b e1 by (intro exI[of _ "r div 4"] conjI exI[of _ "r mod 4"]) (simp_all add: tpos_eq)
    subgoal using b e1 by (intro exI[of _ "q mod 4"] conjI exI[of _ "q div 4"]) (simp_all add: tpos_eq)
    subgoal using b e1 by (intro exI[of _ "r mod 4"] conjI exI[of _ "r div 4"]) (simp_all add: tpos_eq)
    done
qed

lemma upt4: "[0..<4] = [0,1,2,3]"
  by (simp add: upt_rec)

lemma tpos_lt: "dir_ok dx dy \<Longrightarrow> i < 4 \<Longrightarrow> j < 4 \<Longrightarrow> tpos dx dy i j < 16"
  using grid_dir[of dx dy] cellpos_lt[of "cellint (t_begin dx dy) (t_major dx dy) i" "t_minor dx dy" 4 16 j]
  by (simp add: grid_ok_def tpos_def gpos_def)

lemma row_result_len [simp]: "length (row_result V) = length V"
proof -
  have "rinv 0 row_init" by (simp add: rinv_def row_init_def)
  have "\<And>j r. rinv j r \<Longrightarrow> rinv (Suc j) (row_visit V r j)" by (rule rinv_visit)
  have "k \<le> length V \<Longrightarrow> rinv k (foldl (row_visit V) row_init [0..<k])" for k
    by (induction k) (simp_all add: rinv_def row_init_def rinv_visit[unfolded rinv_def])
  then have "length (r_out (row_scan V)) \<le> length V"
    unfolding row_scan_def by (intro rinv_flush) simp
  then show ?thesis by (simp add: row_result_def)
qed

lemma row_moved4: "r_moved (row_scan [a,b,c,d]) \<longleftrightarrow> row_result [a,b,c,d] \<noteq> [a,b,c,d]"
  unfolding row_scan_slide row_result_slide
  by (cases "a = 0"; cases "b = 0"; cases "c = 0"; cases "d = 0") (auto simp: rep4)

lemma tline_len [simp]: "length (tline dx dy st i) = 4"
  by (simp add: tline_def)

lemma tilt_moved_iff:
  assumes d: "dir_ok dx dy" and len: "length st = 16"
    and t: "tilt dx dy st anim score = Some (mv, st', an', sc')"
  shows "mv \<longleftrightarrow> st' \<noteq> st"
proof -
  note R = tilt_rows[OF d len t]
  have row: "\<And>i. r_moved (row_scan (tline dx dy st i)) \<longleftrightarrow> row_result (tline dx dy st i) \<noteq> tline dx dy st i"
  proof -
    fix i
    obtain a b c e where V: "tline dx dy st i = [a,b,c,e]"
      by (simp add: tline_def upt4)
    show "r_moved (row_scan (tline dx dy st i)) \<longleftrightarrow> row_result (tline dx dy st i) \<noteq> tline dx dy st i"
      unfolding V by (rule row_moved4)
  qed
  have eq_iff: "st' = st \<longleftrightarrow> (\<forall>i<4. row_result (tline dx dy st i) = tline dx dy st i)"
  proof
    assume e: "st' = st"
    show "\<forall>i<4. row_result (tline dx dy st i) = tline dx dy st i"
    proof (intro allI impI nth_equalityI)
      fix i j assume "i < (4::nat)" "j < length (row_result (tline dx dy st i))"
      then show "row_result (tline dx dy st i) ! j = tline dx dy st i ! j"
        using R(2) e by (simp add: tline_def)
    qed simp
  next
    assume e: "\<forall>i<4. row_result (tline dx dy st i) = tline dx dy st i"
    show "st' = st"
    proof (rule nth_equalityI)
      show "length st' = length st" using R(1) len by simp
    next
      fix q assume "q < length st'"
      then have "q < 16" using R(1) by simp
      then obtain i j where ij: "i < 4" "j < 4" "tpos dx dy i j = q"
        using tpos_surj[OF d] by blast
      have "st' ! tpos dx dy i j = row_result (tline dx dy st i) ! j" using R(2) ij by blast
      also have "\<dots> = tline dx dy st i ! j" using e ij by simp
      also have "\<dots> = st ! tpos dx dy i j" using ij by (simp add: tline_def)
      finally show "st' ! q = st ! q" using ij by simp
    qed
  qed
  show ?thesis using R(3) row eq_iff by auto
qed

lemma row_settled4: "row_result [a,b,c,d] = [a,b,c,d] \<longleftrightarrow> line_settled [a,b,c,d]"
  unfolding row_result_slide
  by (cases "a = 0"; cases "b = 0"; cases "c = 0"; cases "d = 0") (auto simp: rep4)

lemma word8_succ: "(c::u8) \<noteq> 255 \<Longrightarrow> c + 1 \<noteq> 0" "(c::u8) \<noteq> 255 \<Longrightarrow> unat (c + 1) = Suc (unat c)"
proof -
  assume c: "c \<noteq> 255"
  show 1: "c + 1 \<noteq> 0"
  proof
    assume "c + 1 = 0"
    then have "c = - 1" by (simp add: eq_neg_iff_add_eq_0)
    then show False using c by simp
  qed
  show "unat (c + 1) = Suc (unat c)" using 1 unatSuc[of c] by (simp add: add.commute)
qed

lemma nonempty_simps [simp]:
  "nonempty [] = 0" "nonempty (c # cs) = (if c = 0 then 0 else 1) + nonempty cs"
  "nonempty (xs @ ys) = nonempty xs + nonempty ys" "nonempty (replicate n 0) = 0"
  by (simp_all add: nonempty_def)

lemma mass_simps [simp]:
  "mass [] = 0" "mass (c # cs) = (if c = 0 then 0 else 2 ^ unat c) + mass cs"
  "mass (xs @ ys) = mass xs + mass ys" "mass (replicate n 0) = 0"
  by (simp_all add: mass_def)

lemma slide_nonempty:
  "lv \<noteq> 255 \<Longrightarrow> \<forall>v\<in>set vs. v \<noteq> 255 \<Longrightarrow>
   nonempty (slide lv vs) + length (slide_merged lv vs) = nonempty vs + (if lv = 0 then 0 else 1)"
  by (induction lv vs rule: slide.induct) (auto simp: word8_succ)

lemma slide_mass:
  "lv \<noteq> 255 \<Longrightarrow> \<forall>v\<in>set vs. v \<noteq> 255 \<Longrightarrow>
   mass (slide lv vs) = mass vs + (if lv = 0 then 0 else 2 ^ unat lv)"
  by (induction lv vs rule: slide.induct) (auto simp: word8_succ)

lemma row_nonempty:
  "\<forall>v\<in>set V. v \<noteq> 255 \<Longrightarrow> nonempty (row_result V) + length (r_merged (row_scan V)) = nonempty V"
  using slide_nonempty[of 0 V] by (simp add: row_result_slide row_scan_slide)

lemma row_mass:
  "\<forall>v\<in>set V. v \<noteq> 255 \<Longrightarrow> mass (row_result V) = mass V"
  using slide_mass[of 0 V] by (simp add: row_result_slide)

lemma tpos_bij:
  assumes d: "dir_ok dx dy"
  shows "bij_betw (\<lambda>(i, j). tpos dx dy i j) ({..<4} \<times> {..<4}) {..<16}"
  unfolding bij_betw_def
proof
  show "inj_on (\<lambda>(i, j). tpos dx dy i j) ({..<4} \<times> {..<4})"
    using grid_dir[OF d] unfolding grid_ok_def inj_on_def tpos_def by auto
  show "(\<lambda>(i, j). tpos dx dy i j) ` ({..<4} \<times> {..<4}) = {..<16}"
  proof (intro set_eqI iffI)
    fix q assume "q \<in> (\<lambda>(i, j). tpos dx dy i j) ` ({..<4} \<times> {..<4})"
    then show "q \<in> {..<16}" using tpos_lt[OF d] by auto
  next
    fix q :: nat assume "q \<in> {..<16}"
    then obtain i j where "i < 4" "j < 4" "tpos dx dy i j = q" using tpos_surj[OF d, of q] by auto
    then show "q \<in> (\<lambda>(i, j). tpos dx dy i j) ` ({..<4} \<times> {..<4})" by force
  qed
qed

lemma board_sum:
  fixes f :: "u8 \<Rightarrow> nat"
  assumes d: "dir_ok dx dy" and len: "length st = 16"
  shows "(\<Sum>c\<leftarrow>st. f c) = (\<Sum>i<4. \<Sum>c\<leftarrow>tline dx dy st i. f c)"
proof -
  have "(\<Sum>c\<leftarrow>st. f c) = (\<Sum>q<16. f (st ! q))"
    using len by (simp add: sum_list_sum_nth atLeast0LessThan)
  also have "\<dots> = (\<Sum>p\<in>{..<4} \<times> {..<4}. f (st ! (case p of (i, j) \<Rightarrow> tpos dx dy i j)))"
    by (rule sum.reindex_bij_betw[OF tpos_bij[OF d], symmetric])
  also have "\<dots> = (\<Sum>i<4. \<Sum>j<4. f (st ! tpos dx dy i j))"
    by (simp add: sum.cartesian_product case_prod_unfold)
  also have "\<dots> = (\<Sum>i<4. \<Sum>c\<leftarrow>tline dx dy st i. f c)"
    by (simp add: tline_def comp_def interv_sum_list_conv_sum_set_nat atLeast0LessThan)
  finally show ?thesis .
qed

lemma nonempty_sum: "nonempty st = (\<Sum>c\<leftarrow>st. if c = 0 then 0 else 1)"
  by (induction st) simp_all

lemma tilt_lines:
  assumes d: "dir_ok dx dy" and len: "length st = 16"
    and t: "tilt dx dy st anim score = Some (mv, st', an', sc')"
  shows "i < 4 \<Longrightarrow> tline dx dy st' i = row_result (tline dx dy st i)"
  using tilt_rows(2)[OF d len t]
  by (intro nth_equalityI) (simp_all add: tline_def)

lemma tline_set: "dir_ok dx dy \<Longrightarrow> length st = 16 \<Longrightarrow> i < 4 \<Longrightarrow> set (tline dx dy st i) \<subseteq> set st"
  using tpos_lt[of dx dy i] by (auto simp: tline_def)

lemma tilt_nonempty:
  assumes d: "dir_ok dx dy" and len: "length st = 16"
    and t: "tilt dx dy st (Some a) score = Some (mv, st', an', sc')"
    and c: "\<forall>c\<in>set st. c \<noteq> 255"
  shows "nonempty st' + merges an' = nonempty st + merges (Some a)"
proof -
  note R = tilt_rows[OF d len t]
  have rows: "\<And>i. i < 4 \<Longrightarrow> nonempty (tline dx dy st' i) + length (r_merged (row_scan (tline dx dy st i))) = nonempty (tline dx dy st i)"
    using tilt_lines[OF d len t] row_nonempty tline_set[OF d len] c by (metis subsetD)
  have ne: "\<And>b. length b = 16 \<Longrightarrow> nonempty b = (\<Sum>i<4. nonempty (tline dx dy b i))"
  proof -
    fix b :: "u8 list" assume b: "length b = 16"
    have "nonempty b = (\<Sum>c\<leftarrow>b. if c = 0 then 0 else 1)" by (rule nonempty_sum)
    also have "\<dots> = (\<Sum>i<4. \<Sum>c\<leftarrow>tline dx dy b i. if c = 0 then 0 else 1)"
      by (rule board_sum[OF d b])
    also have "\<dots> = (\<Sum>i<4. nonempty (tline dx dy b i))"
      by (simp only: nonempty_sum)
    finally show "nonempty b = (\<Sum>i<4. nonempty (tline dx dy b i))" .
  qed
  have "nonempty st' + (\<Sum>i<4. length (r_merged (row_scan (tline dx dy st i))))
      = (\<Sum>i<4. nonempty (tline dx dy st' i) + length (r_merged (row_scan (tline dx dy st i))))"
    by (simp add: ne[OF R(1)] sum.distrib)
  also have "\<dots> = (\<Sum>i<4. nonempty (tline dx dy st i))"
    using rows by simp
  also have "\<dots> = nonempty st"
    by (simp add: ne[OF len])
  finally show ?thesis using R(6) by simp
qed

lemma tilt_mass:
  assumes d: "dir_ok dx dy" and len: "length st = 16"
    and t: "tilt dx dy st anim score = Some (mv, st', an', sc')"
    and c: "\<forall>c\<in>set st. c \<noteq> 255"
  shows "mass st' = mass st"
proof -
  note R = tilt_rows[OF d len t]
  have rows: "\<And>i. i < 4 \<Longrightarrow> mass (tline dx dy st' i) = mass (tline dx dy st i)"
    using tilt_lines[OF d len t] row_mass tline_set[OF d len] c by (metis subsetD)
  have "mass st' = (\<Sum>i<4. mass (tline dx dy st' i))"
    unfolding mass_def by (rule board_sum[OF d R(1)])
  also have "\<dots> = (\<Sum>i<4. mass (tline dx dy st i))" using rows by simp
  also have "\<dots> = mass st"
    unfolding mass_def by (rule board_sum[OF d len, symmetric])
  finally show ?thesis .
qed

section \<open>Claims about Board::tilt and Board::move\<close>

lemma dir_tables:
  assumes "0 \<le> dir" "dir < 4"
  shows "dir_ok (DIR_DX ! nat dir) (DIR_DY ! nat dir)"
proof -
  have "dir = 0 \<or> dir = 1 \<or> dir = 2 \<or> dir = 3" using assms by arith
  then show ?thesis by (auto simp: dir_ok_def DIR_DX_def DIR_DY_def)
qed

lemma settled_iff: "settled dx dy st \<longleftrightarrow> (\<forall>i<4. line_settled (tline dx dy st i))"
  by (auto simp add: settled_def list_all_iff)

lemma tline4: "\<exists>a b c e. tline dx dy st i = [a, b, c, e]"
  by (simp add: tline_def upt4)

lemma slide_not_moved_merged: "\<not> slide_moved t lf lv j vs \<Longrightarrow> slide_merged lv vs = []"
  by (induction t lf lv j vs rule: slide_moved.induct) (auto split: if_splits)

lemma row_not_moved_merged: "\<not> r_moved (row_scan V) \<Longrightarrow> r_merged (row_scan V) = []"
  by (simp add: row_scan_slide slide_not_moved_merged)

lemma tilt_same_board:
  assumes d: "dir_ok dx dy" and len: "length st = 16"
    and t1: "tilt dx dy st anim score = Some (mv, st', an', sc')"
    and t2: "tilt dx dy st anim2 score2 = Some (mv2, st2, an2, sc2)"
  shows "mv2 = mv" "st2 = st'"
proof -
  note R1 = tilt_rows[OF d len t1] and R2 = tilt_rows[OF d len t2]
  show "mv2 = mv" using R1(3) R2(3) by simp
  show "st2 = st'"
  proof (rule nth_equalityI)
    show "length st2 = length st'" using R1(1) R2(1) by simp
  next
    fix q assume "q < length st2"
    then have "q < 16" using R2(1) by simp
    then obtain i j where ij: "i < 4" "j < 4" "tpos dx dy i j = q"
      using tpos_surj[OF d] by blast
    have "st2 ! tpos dx dy i j = st' ! tpos dx dy i j" using R1(2) R2(2) ij(1,2) by simp
    then show "st2 ! q = st' ! q" using ij by simp
  qed
qed

lemma tilt_not_moved:
  assumes d: "dir_ok dx dy" and len: "length st = 16"
    and t: "tilt dx dy st anim score = Some (False, st', an', sc')"
  shows "st' = st" "sc' = score"
proof -
  note R = tilt_rows[OF d len t]
  show "st' = st" using tilt_moved_iff[OF d len t] by simp
  have "\<forall>i<4. r_merged (row_scan (tline dx dy st i)) = []"
    using R(3) row_not_moved_merged by blast
  then have "(\<Sum>i<4. gain (r_merged (row_scan (tline dx dy st i)))) = 0" by simp
  then show "sc' = score" using R(4) by (cases score) simp_all
qed

lemma tilt_settled:
  assumes d: "dir_ok dx dy" and len: "length st = 16"
    and t: "tilt dx dy st anim score = Some (mv, st', an', sc')"
  shows "mv = False \<longleftrightarrow> settled dx dy st"
proof -
  note R = tilt_rows[OF d len t]
  have "\<And>i. r_moved (row_scan (tline dx dy st i)) \<longleftrightarrow> \<not> line_settled (tline dx dy st i)"
  proof -
    fix i
    obtain a b c e where V: "tline dx dy st i = [a, b, c, e]" using tline4 by blast
    show "r_moved (row_scan (tline dx dy st i)) \<longleftrightarrow> \<not> line_settled (tline dx dy st i)"
      unfolding V using row_moved4[of a b c e] row_settled4[of a b c e] by blast
  qed
  then show ?thesis using R(3) by (simp add: settled_iff)
qed

text \<open>
  Claim C8. Let the slide in a direction change nothing, that is, \<^verbatim>\<open>tilt\<close> reports
  \<open>moved = false\<close> on the board. Then \<^verbatim>\<open>Board::move\<close> in that direction returns false and
  leaves the board, the generator and the score as they were (no tile is placed, no draw is
  made), whatever animation state, generator and score it is given; and
  \<^verbatim>\<open>BoardHistory::move\<close> on a history whose current board it is returns the history
  unchanged: the current index, \<open>undo_avail\<close>, \<open>redo_avail\<close> and every stored snapshot.
\<close>

theorem null_move_changes_nothing:
  assumes "0 \<le> dir" and "dir < 4" and "length st = NUM_TILES"
    and "tilt (DIR_DX ! nat dir) (DIR_DY ! nat dir) st None None = Some (False, st1, a1, s1)"
  shows "(\<exists>anim'. move dir st anim rng score = Some (False, st, anim', rng, score)) \<and>
    (\<forall>h anim0. get_board h = st \<longrightarrow> (\<exists>anim'. history_move dir anim0 h = Some (h, anim')))"
proof -
  let ?dx = "DIR_DX ! nat dir" and ?dy = "DIR_DY ! nat dir"
  have d: "dir_ok ?dx ?dy" using assms(1,2) by (rule dir_tables)
  have len: "length st = 16" using assms(3) by (simp add: NUM_TILES_def)
  have mv: "\<exists>anim'. move dir st anim rng score = Some (False, st, anim', rng, score)" for anim rng score
  proof -
    have z: "ntiles (map_option (\<lambda>_. []) anim) \<le> 8" "nscores (map_option (\<lambda>_. []) anim) \<le> 8"
      by (cases anim; simp)+
    obtain mv st' an' sc' where t: "tilt ?dx ?dy st (map_option (\<lambda>_. []) anim) score = Some (mv, st', an', sc')"
      using tilt_defined[OF d z] by blast
    have "mv = False" using tilt_same_board(1)[OF d len assms(4) t] .
    with t tilt_not_moved[OF d len, of "map_option (\<lambda>_. []) anim" score st' an' sc']
    have "tilt ?dx ?dy st (map_option (\<lambda>_. []) anim) score = Some (False, st, an', score)" by simp
    then show ?thesis using assms(1,2) by (simp add: move_def)
  qed
  have "\<exists>anim'. history_move dir anim0 h = Some (h, anim')" if h: "get_board h = st" for h anim0
  proof -
    let ?cur = "history h (current h)"
    obtain anim' where "move dir (hs_board ?cur) (Some anim0) (hs_rng ?cur) (Some (hs_score ?cur))
        = Some (False, hs_board ?cur, anim', hs_rng ?cur, Some (hs_score ?cur))"
      using mv[of "Some anim0" "hs_rng ?cur" "Some (hs_score ?cur)"] h by (auto simp: get_board_def)
    then show ?thesis by (simp add: history_move_def hs_move_def)
  qed
  with mv show ?thesis by blast
qed

text \<open>
  Claim C4, as amended. On a board with no cell equal to 255, after \<^verbatim>\<open>Board::tilt\<close> the
  number of non-empty cells is the number before minus the number of merges performed (the
  \<^verbatim>\<open>merge\<close> calls the animation state received), and the total value mass is unchanged,
  whether tiles merged or only slid: a merge replaces two tiles \<open>2 ^ v\<close> by one tile
  \<open>2 ^ (v + 1)\<close>.
\<close>

theorem tilt_count_and_mass:
  assumes "0 \<le> dir" and "dir < 4" and "length st = NUM_TILES"
    and "\<forall>c\<in>set st. c \<noteq> 255"
    and "tilt (DIR_DX ! nat dir) (DIR_DY ! nat dir) st (Some []) score = Some (moved, st', anim', score')"
  shows "nonempty st' = nonempty st - merges anim' \<and> merges anim' \<le> nonempty st \<and> mass st' = mass st"
proof -
  have d: "dir_ok (DIR_DX ! nat dir) (DIR_DY ! nat dir)" using assms(1,2) by (rule dir_tables)
  have len: "length st = 16" using assms(3) by (simp add: NUM_TILES_def)
  have "nonempty st' + merges anim' = nonempty st"
    using tilt_nonempty[OF d len assms(5,4)] by (simp add: merges_def)
  moreover have "mass st' = mass st" using tilt_mass[OF d len assms(5,4)] .
  ultimately show ?thesis by simp
qed

lemma ex_packed_tilt: "tilt (DIR_DX ! nat 0) (DIR_DY ! nat 0) ex_packed None None = Some (False, ex_packed, None, None)"
  by code_simp

text \<open>Claim C8 at a board that is packed to the left, moved to the left.\<close>

theorem null_move_changes_nothing_witness:
  "(\<exists>anim'. move 0 ex_packed None (rng_reset 1) None = Some (False, ex_packed, anim', rng_reset 1, None)) \<and>
   (\<exists>anim'. history_move 0 [] ex_history = Some (ex_history, anim'))"
proof -
  have l: "length ex_packed = NUM_TILES" by (simp add: ex_packed_def NUM_TILES_def)
  have g: "get_board ex_history = ex_packed"
    by (simp add: get_board_def ex_history_def hs_reset_board_def)
  from null_move_changes_nothing[OF _ _ l ex_packed_tilt, of None "rng_reset 1" None] g
  show ?thesis by simp
qed

text \<open>Claim C2 as stated fails: on the row 1 1 2 0 the second tilt to the left merges the
  two tiles the first one made, and reports \<open>moved = true\<close>.\<close>

theorem second_tilt_counterexample:
  "tilt (DIR_DX ! nat 0) (DIR_DY ! nat 0) ex_twice None None =
     Some (True, [2, 2, 0, 0,  0, 0, 0, 0,  0, 0, 0, 0,  0, 0, 0, 0], None, None) \<and>
   tilt (DIR_DX ! nat 0) (DIR_DY ! nat 0) [2, 2, 0, 0,  0, 0, 0, 0,  0, 0, 0, 0,  0, 0, 0, 0] None None =
     Some (True, [3, 0, 0, 0,  0, 0, 0, 0,  0, 0, 0, 0,  0, 0, 0, 0], None, None)"
  by code_simp

lemma mergeable_iff: "mergeable dx dy st \<longleftrightarrow> (\<exists>i<4. line_mergeable (tline dx dy st i))"
  by (auto simp add: mergeable_def list_ex_iff)

lemma row_no_merge_settled4:
  "slide_merged 0 [a, b, c, d] = [] \<Longrightarrow> line_settled (row_result [a, b, c, d])"
  unfolding row_result_slide
  by (cases "a = 0"; cases "b = 0"; cases "c = 0"; cases "d = 0") (auto simp: rep4 split: if_splits)

lemma row_settled_mergeable4:
  assumes "a \<noteq> 255" "b \<noteq> 255" "c \<noteq> 255" "d \<noteq> 255"
  shows "line_settled (row_result [a, b, c, d]) \<longleftrightarrow> \<not> line_mergeable (row_result [a, b, c, d])"
  unfolding row_result_slide using assms
  by (cases "a = 0"; cases "b = 0"; cases "c = 0"; cases "d = 0") (auto simp: rep4 word8_succ)

text \<open>
  Claim C2, as amended. Tilt a board in a direction, the animation state freshly reset, and
  tilt the result again in the same direction. If the first call merged nothing (it only
  slid tiles), the second call reports \<open>moved = false\<close> and leaves the board as it is:
  sliding is idempotent. In general, on a board with no cell 255, the second call reports
  \<open>moved = true\<close> exactly when the first call left two equal neighbouring tiles in a line of
  that direction, which only a merge can do (the row 1 1 2 0 becomes 2 2 0 0 and merges
  again).
\<close>

theorem second_tilt_after_tilt:
  assumes "0 \<le> dir" and "dir < 4" and "length st = NUM_TILES"
    and "tilt (DIR_DX ! nat dir) (DIR_DY ! nat dir) st (Some []) score = Some (moved1, st1, anim1, score1)"
    and "tilt (DIR_DX ! nat dir) (DIR_DY ! nat dir) st1 None None = Some (moved2, st2, anim2, score2)"
  shows "(merges anim1 = 0 \<longrightarrow> moved2 = False \<and> st2 = st1) \<and>
    ((\<forall>c\<in>set st. c \<noteq> 255) \<longrightarrow>
       (moved2 = True \<longleftrightarrow> mergeable (DIR_DX ! nat dir) (DIR_DY ! nat dir) st1))"
proof -
  let ?dx = "DIR_DX ! nat dir" and ?dy = "DIR_DY ! nat dir"
  have d: "dir_ok ?dx ?dy" using assms(1,2) by (rule dir_tables)
  have len: "length st = 16" using assms(3) by (simp add: NUM_TILES_def)
  note R = tilt_rows[OF d len assms(4)]
  note L = tilt_lines[OF d len assms(4)]
  have len1: "length st1 = 16" by (rule R(1))
  note S = tilt_settled[OF d len1 assms(5)]
  have a: "moved2 = False \<and> st2 = st1" if m: "merges anim1 = 0"
  proof -
    have "(\<Sum>i<4. length (r_merged (row_scan (tline ?dx ?dy st i)))) = 0"
      using R(6) m by (simp add: merges_def)
    then have nom: "\<And>i. i < 4 \<Longrightarrow> slide_merged 0 (tline ?dx ?dy st i) = []"
      by (simp add: row_scan_slide)
    have "line_settled (tline ?dx ?dy st1 i)" if i: "i < 4" for i
    proof -
      obtain a b c e where V: "tline ?dx ?dy st i = [a, b, c, e]" using tline4 by blast
      show ?thesis using row_no_merge_settled4[of a b c e] nom[OF i] L[OF i] by (simp add: V)
    qed
    then have "settled ?dx ?dy st1" by (simp add: settled_iff)
    then have f: "moved2 = False" using S by simp
    with assms(5) tilt_not_moved(1)[OF d len1, of None None st2 anim2 score2]
    show ?thesis by simp
  qed
  have b: "moved2 = True \<longleftrightarrow> mergeable ?dx ?dy st1" if c: "\<forall>c\<in>set st. c \<noteq> 255"
  proof -
    have "line_settled (tline ?dx ?dy st1 i) \<longleftrightarrow> \<not> line_mergeable (tline ?dx ?dy st1 i)"
      if i: "i < 4" for i
    proof -
      obtain a b c e where V: "tline ?dx ?dy st i = [a, b, c, e]" using tline4 by blast
      have "set (tline ?dx ?dy st i) \<subseteq> set st" by (rule tline_set[OF d len i])
      then have "a \<noteq> 255" "b \<noteq> 255" "c \<noteq> 255" "e \<noteq> 255" using c V by auto
      from row_settled_mergeable4[OF this] show ?thesis using L[OF i] by (simp add: V)
    qed
    then have "settled ?dx ?dy st1 \<longleftrightarrow> \<not> mergeable ?dx ?dy st1"
      by (simp add: settled_iff mergeable_iff)
    then show ?thesis using S by auto
  qed
  from a b show ?thesis by blast
qed

text \<open>Claim C2 as amended, at a board whose first tilt to the left only slides, and at the
  board of the counterexample, whose first tilt merges: there the result is mergeable.\<close>

theorem second_tilt_after_tilt_witness:
  "mergeable (DIR_DX ! nat 0) (DIR_DY ! nat 0) [2, 2, 0, 0,  0, 0, 0, 0,  0, 0, 0, 0,  0, 0, 0, 0] \<and>
   \<not> mergeable (DIR_DX ! nat 0) (DIR_DY ! nat 0) [1, 2, 0, 0,  3, 0, 0, 0,  1, 2, 1, 0,  0, 0, 0, 0]"
proof -
  let ?s1 = "[1, 2, 0, 0,  3, 0, 0, 0,  1, 2, 1, 0,  0, 0, 0, 0] :: BoardState"
  let ?b1 = "[2, 2, 0, 0,  0, 0, 0, 0,  0, 0, 0, 0,  0, 0, 0, 0] :: BoardState"
  let ?b2 = "[3, 0, 0, 0,  0, 0, 0, 0,  0, 0, 0, 0,  0, 0, 0, 0] :: BoardState"
  have s1: "tilt (DIR_DX ! nat 0) (DIR_DY ! nat 0) ex_slide (Some []) None =
      Some (True, ?s1, Some [Slide 1 0 1, Slide 3 1 2, Blank 2, Blank 3, Slide 6 4 3, Blank 5,
        Blank 6, Blank 7, Slide 8 8 1, Slide 9 9 2, Slide 10 10 1, Blank 11, Blank 12, Blank 13,
        Blank 14, Blank 15], None)"
    and s2: "tilt (DIR_DX ! nat 0) (DIR_DY ! nat 0) ?s1 None None = Some (False, ?s1, None, None)"
    by code_simp+
  have t1: "tilt (DIR_DX ! nat 0) (DIR_DY ! nat 0) ex_twice (Some []) None =
      Some (True, ?b1, Some [Merge 0 1 0 1, Slide 2 1 2, Blank 2, Blank 3, Blank 4, Blank 5, Blank 6,
        Blank 7, Blank 8, Blank 9, Blank 10, Blank 11, Blank 12, Blank 13, Blank 14, Blank 15], None)"
    and t2: "tilt (DIR_DX ! nat 0) (DIR_DY ! nat 0) ?b1 None None = Some (True, ?b2, None, None)"
    by code_simp+
  have l: "length ex_slide = NUM_TILES" "length ex_twice = NUM_TILES"
    by (simp_all add: ex_slide_def ex_twice_def NUM_TILES_def)
  have c: "\<forall>c\<in>set ex_twice. c \<noteq> 255" "\<forall>c\<in>set ex_slide. c \<noteq> 255"
    by (simp_all add: ex_twice_def ex_slide_def)
  from second_tilt_after_tilt[OF _ _ l(1) s1 s2] c(2)
  have "\<not> mergeable (DIR_DX ! nat 0) (DIR_DY ! nat 0) ?s1" by simp
  moreover from second_tilt_after_tilt[OF _ _ l(2) t1 t2] c(1)
  have "mergeable (DIR_DX ! nat 0) (DIR_DY ! nat 0) ?b1" by simp
  ultimately show ?thesis by simp
qed

text \<open>Claim C4 as stated fails: this tilt performs two merges and the total value mass
  after it equals the mass before, it does not grow.\<close>

theorem tilt_mass_counterexample:
  "tilt (DIR_DX ! nat 0) (DIR_DY ! nat 0) ex_merge (Some []) (Some 0) =
     Some (True, [2, 0, 0, 0,  3, 0, 0, 0,  0, 0, 0, 0,  3, 5, 0, 0],
       Some [Merge 0 1 0 1, Blank 1, Blank 2, Blank 3, Slide 5 4 3, Blank 5, Blank 6, Blank 7,
             Blank 8, Blank 9, Blank 10, Blank 11, Merge 12 14 12 2, Slide 15 13 5, Blank 14, Blank 15],
       Some 12) \<and>
   mass [2, 0, 0, 0,  3, 0, 0, 0,  0, 0, 0, 0,  3, 5, 0, 0] = mass ex_merge"
  by code_simp

text \<open>Claim C4 as amended, at the board of the counterexample.\<close>

theorem tilt_count_and_mass_witness:
  "nonempty [2, 0, 0, 0,  3, 0, 0, 0,  0, 0, 0, 0,  3, 5, 0, 0] = nonempty ex_merge - 2 \<and>
   mass [2, 0, 0, 0,  3, 0, 0, 0,  0, 0, 0, 0,  3, 5, 0, 0] = mass ex_merge"
proof -
  have t: "tilt (DIR_DX ! nat 0) (DIR_DY ! nat 0) ex_merge (Some []) (Some 0) =
     Some (True, [2, 0, 0, 0,  3, 0, 0, 0,  0, 0, 0, 0,  3, 5, 0, 0],
       Some [Merge 0 1 0 1, Blank 1, Blank 2, Blank 3, Slide 5 4 3, Blank 5, Blank 6, Blank 7,
             Blank 8, Blank 9, Blank 10, Blank 11, Merge 12 14 12 2, Slide 15 13 5, Blank 14, Blank 15],
       Some 12)"
    by code_simp
  have l: "length ex_merge = NUM_TILES" by (simp add: ex_merge_def NUM_TILES_def)
  have c: "\<forall>c\<in>set ex_merge. c \<noteq> 255" by (simp add: ex_merge_def)
  from tilt_count_and_mass[OF _ _ l c t] show ?thesis by (simp add: merges_def)
qed

section \<open>Claims about the transposition cache\<close>

lemma bucket_get_map_of: "bucket_get k slots = map_of slots k"
  by (induction slots) auto

lemma bucket_replace_None: "bucket_replace k v slots = None \<longleftrightarrow> k \<notin> fst ` set slots"
  by (induction slots) (auto split: if_splits)

lemma bucket_replace_get: "bucket_replace k v slots = Some b \<Longrightarrow> bucket_get k b = Some v"
  by (induction slots arbitrary: b) (auto split: if_splits)

lemma bucket_put_get: "bucket_get k (bucket_put k v slots) = Some v"
  by (cases "bucket_replace k v slots") (simp_all add: bucket_put_def bucket_replace_get)

lemma cache_put_get:
  "k \<noteq> 0 \<Longrightarrow> \<exists>c'. cache_put k loc v cache = Some c' \<and> cache_get k loc c' = Some (Some v)"
  by (simp add: cache_put_def cache_get_def bucket_put_get)

lemma take_butlast_append:
  assumes "n < length xs + length ys" "ys \<noteq> []"
  shows "take n (xs @ butlast ys) = take n (xs @ ys)"
proof -
  have "xs @ butlast ys = butlast (xs @ ys)" using assms(2) by (simp add: butlast_append)
  then show ?thesis using assms(1) by (simp add: take_butlast)
qed

lemma put_all_bucket:
  assumes "distinct (map fst kvs)" "\<forall>(k, v)\<in>set kvs. k \<noteq> 0 \<and> cache_where k = loc"
    "fst ` set kvs \<inter> fst ` set (cache loc) = {}" "length (cache loc) = BUCKET_SIZE"
  shows "\<exists>c'. put_all kvs cache = Some c' \<and> c' loc = take BUCKET_SIZE (rev kvs @ cache loc)"
  using assms
proof (induction kvs arbitrary: cache)
  case Nil
  then show ?case by simp
next
  case (Cons kv kvs)
  obtain k v where kv: "kv = (k, v)" by (cases kv)
  have k: "k \<noteq> 0" "cache_where k = loc" using Cons.prems(2) kv by auto
  have notin: "k \<notin> fst ` set (cache loc)" using Cons.prems(3) kv by auto
  let ?c1 = "cache(loc := (k, v) # butlast (cache loc))"
  have put: "cache_put k (cache_where k) v cache = Some ?c1"
    using k notin by (simp add: cache_put_def bucket_put_def bucket_replace_None[THEN iffD2])
  have ne: "cache loc \<noteq> []" using Cons.prems(4) by (auto simp: BUCKET_SIZE_def)
  have d1: "distinct (map fst kvs)" and a1: "\<forall>(k, v)\<in>set kvs. k \<noteq> 0 \<and> cache_where k = loc"
    using Cons.prems(1,2) by auto
  have i1: "fst ` set kvs \<inter> fst ` set (?c1 loc) = {}"
  proof -
    have "fst ` set (butlast (cache loc)) \<subseteq> fst ` set (cache loc)"
      by (auto dest: in_set_butlastD)
    moreover have "k \<notin> fst ` set kvs" using Cons.prems(1) kv by (auto simp: image_iff)
    moreover have "fst ` set kvs \<inter> fst ` set (cache loc) = {}" using Cons.prems(3) by auto
    ultimately show ?thesis by auto
  qed
  have l1: "length (?c1 loc) = BUCKET_SIZE" using Cons.prems(4) ne by (simp add: BUCKET_SIZE_def)
  from Cons.IH[of ?c1, OF d1 a1 i1 l1] obtain c' where c':
    "put_all kvs ?c1 = Some c'" "c' loc = take BUCKET_SIZE (rev kvs @ ?c1 loc)" by blast
  have "take BUCKET_SIZE (rev kvs @ (k, v) # butlast (cache loc))
      = take BUCKET_SIZE (rev kvs @ (k, v) # cache loc)"
    using take_butlast_append[of BUCKET_SIZE "rev kvs @ [(k, v)]" "cache loc"] ne Cons.prems(4)
    by simp
  then show ?case using c' put kv by simp
qed

lemma put_all_reset:
  assumes d: "distinct (map fst kvs)" and a: "\<forall>(k, v)\<in>set kvs. k \<noteq> 0 \<and> cache_where k = loc"
    and n: "BUCKET_SIZE \<le> length kvs"
  shows "\<exists>c'. put_all kvs (cache_reset z) = Some c' \<and>
     c' loc = rev (drop (length kvs - BUCKET_SIZE) kvs)"
proof -
  have "fst ` set kvs \<inter> fst ` set (cache_reset z loc) = {}"
    using a by (auto simp: cache_reset_def)
  moreover have "length (cache_reset z loc) = BUCKET_SIZE" by (simp add: cache_reset_def)
  ultimately obtain c' where c': "put_all kvs (cache_reset z) = Some c'"
    "c' loc = take BUCKET_SIZE (rev kvs @ cache_reset z loc)"
    using put_all_bucket[OF d a] by blast
  have "take BUCKET_SIZE (rev kvs @ cache_reset z loc) = take BUCKET_SIZE (rev kvs)"
    using n by simp
  also have "\<dots> = rev (drop (length kvs - BUCKET_SIZE) kvs)" by (simp add: take_rev)
  finally show ?thesis using c' by simp
qed

text \<open>
  Claim C7, as amended. For every key \<open>k\<close> other than 0 and every value \<open>v\<close>, on any cache,
  \<^verbatim>\<open>put(k, where(k), v)\<close> followed by \<^verbatim>\<open>get(k, where(k))\<close> returns \<open>v\<close> (key 0 is refused by
  the assertion of both calls). And after putting more than \<open>BUCKET_SIZE = 8\<close> pairs with
  distinct non-zero keys of one bucket into an empty cache, \<^verbatim>\<open>get\<close> finds exactly the
  eight keys put last, each with its value; every key put before them, the least recently
  touched first of all, is not found. With nine keys that is the claim's statement: the
  first key is gone and the other eight remain.
\<close>

theorem cache_put_get_and_eviction:
  "(k \<noteq> 0 \<longrightarrow>
      (\<exists>c'. cache_put k (cache_where k) v cache = Some c' \<and>
            cache_get k (cache_where k) c' = Some (Some v))) \<and>
   (distinct (map fst kvs) \<and> (\<forall>(k, v)\<in>set kvs. k \<noteq> 0 \<and> cache_where k = loc) \<and>
    BUCKET_SIZE < length kvs \<longrightarrow>
      (\<exists>c'. put_all kvs (cache_reset z) = Some c' \<and>
         (\<forall>i<length kvs. cache_get (fst (kvs ! i)) loc c' =
            Some (if i + BUCKET_SIZE < length kvs then None else Some (snd (kvs ! i))))))"
proof (intro conjI impI)
  assume "k \<noteq> 0"
  then show "\<exists>c'. cache_put k (cache_where k) v cache = Some c' \<and>
            cache_get k (cache_where k) c' = Some (Some v)" by (rule cache_put_get)
next
  assume h: "distinct (map fst kvs) \<and> (\<forall>(k, v)\<in>set kvs. k \<noteq> 0 \<and> cache_where k = loc) \<and>
    BUCKET_SIZE < length kvs"
  then have d: "distinct (map fst kvs)" and a: "\<forall>(k, v)\<in>set kvs. k \<noteq> 0 \<and> cache_where k = loc"
    and n: "BUCKET_SIZE < length kvs" by simp_all
  let ?m = "length kvs - BUCKET_SIZE"
  obtain c' where c': "put_all kvs (cache_reset z) = Some c'" "c' loc = rev (drop ?m kvs)"
    using put_all_reset[OF d a] n by (metis less_imp_le)
  have dd: "distinct (map fst (rev (drop ?m kvs)))"
    using d by (simp add: rev_map[symmetric] distinct_drop drop_map[symmetric])
  have "cache_get (fst (kvs ! i)) loc c' =
      Some (if i + BUCKET_SIZE < length kvs then None else Some (snd (kvs ! i)))"
    if i: "i < length kvs" for i
  proof -
    have "kvs ! i \<in> set kvs" using i by simp
    then have k0: "fst (kvs ! i) \<noteq> 0" using a by (auto simp: case_prod_unfold)
    show ?thesis
    proof (cases "i + BUCKET_SIZE < length kvs")
      case True
      have "fst (kvs ! i) \<notin> fst ` set (drop ?m kvs)"
      proof
        assume "fst (kvs ! i) \<in> fst ` set (drop ?m kvs)"
        then obtain j where j: "j < length (drop ?m kvs)" "fst (drop ?m kvs ! j) = fst (kvs ! i)"
          by (auto simp: in_set_conv_nth)
        then have e: "map fst kvs ! (?m + j) = map fst kvs ! i" and l: "?m + j < length kvs"
          using i by (simp_all add: nth_map)
        have "(map fst kvs ! (?m + j) = map fst kvs ! i) = (?m + j = i)"
          by (rule nth_eq_iff_index_eq[OF d]) (use l i in simp_all)
        then have "?m + j = i" using e by blast
        then show False using True by simp
      qed
      then have "map_of (rev (drop ?m kvs)) (fst (kvs ! i)) = None"
        by (simp add: map_of_eq_None_iff)
      then show ?thesis using True k0 c' by (simp add: cache_get_def bucket_get_map_of)
    next
      case False
      then have "kvs ! i = drop ?m kvs ! (i - ?m)" "i - ?m < length (drop ?m kvs)" using i by simp_all
      then have "kvs ! i \<in> set (rev (drop ?m kvs))" by (metis nth_mem set_rev)
      then have "(fst (kvs ! i), snd (kvs ! i)) \<in> set (rev (drop ?m kvs))" by simp
      then have "map_of (rev (drop ?m kvs)) (fst (kvs ! i)) = Some (snd (kvs ! i))"
        using dd by (rule map_of_is_SomeI[rotated])
      then show ?thesis using False k0 c' by (simp add: cache_get_def bucket_get_map_of)
    qed
  qed
  then show "\<exists>c'. put_all kvs (cache_reset z) = Some c' \<and>
         (\<forall>i<length kvs. cache_get (fst (kvs ! i)) loc c' =
            Some (if i + BUCKET_SIZE < length kvs then None else Some (snd (kvs ! i))))"
    using c' by blast
qed

text \<open>Claim C7 as stated fails at key 0: \<^verbatim>\<open>put\<close> asserts that the key is not zero and
  returns nothing.\<close>

theorem cache_key_zero_counterexample:
  "cache_put 0 (cache_where 0) (1::nat) (cache_reset 0) = None"
  by (simp add: cache_put_def)

lemma ex_keys_where: "\<forall>(k, v)\<in>set ex_keys. k \<noteq> 0 \<and> cache_where k = 2254"
  by (simp add: ex_keys_def cache_where_def mix64_def BUCKET_INDEX_MASK_def BUCKET_COUNT_def
      BUCKET_SIZE_def Let_def)

text \<open>Claim C7 as amended, at key 137 and at the nine keys of bucket 2254: the first key
  put is not found, the second and the last are.\<close>

theorem cache_put_get_and_eviction_witness:
  "(\<exists>c'. cache_put 137 (cache_where 137) (5::nat) (cache_reset 0) = Some c' \<and>
         cache_get 137 (cache_where 137) c' = Some (Some 5)) \<and>
   (\<exists>c'. put_all ex_keys (cache_reset (0::nat)) = Some c' \<and>
         cache_get 1 2254 c' = Some None \<and>
         cache_get 137 2254 c' = Some (Some 20) \<and>
         cache_get 24359 2254 c' = Some (Some 90))"
proof -
  have d: "distinct (map fst ex_keys)" by (simp add: ex_keys_def)
  have n: "BUCKET_SIZE < length ex_keys" by (simp add: ex_keys_def BUCKET_SIZE_def)
  have k: "(137::u64) \<noteq> 0" by simp
  note T = cache_put_get_and_eviction[of 137 "5::nat" "cache_reset 0" ex_keys 2254 "0::nat"]
  have 1: "\<exists>c'. cache_put 137 (cache_where 137) (5::nat) (cache_reset 0) = Some c' \<and>
         cache_get 137 (cache_where 137) c' = Some (Some 5)"
    using T k by blast
  have "\<exists>c'. put_all ex_keys (cache_reset (0::nat)) = Some c' \<and>
         (\<forall>i<length ex_keys. cache_get (fst (ex_keys ! i)) 2254 c' =
            Some (if i + BUCKET_SIZE < length ex_keys then None else Some (snd (ex_keys ! i))))"
    using T d n ex_keys_where by blast
  then obtain c' where c': "put_all ex_keys (cache_reset (0::nat)) = Some c'"
    and g: "\<And>i. i < length ex_keys \<Longrightarrow> cache_get (fst (ex_keys ! i)) 2254 c' =
            Some (if i + BUCKET_SIZE < length ex_keys then None else Some (snd (ex_keys ! i)))"
    by blast
  have "cache_get 1 2254 c' = Some None" "cache_get 137 2254 c' = Some (Some 20)"
    "cache_get 24359 2254 c' = Some (Some 90)"
    using g[of 0] g[of 1] g[of 8] by (simp_all add: ex_keys_def BUCKET_SIZE_def)
  with 1 c' show ?thesis by blast
qed

section \<open>The history counters\<close>

text \<open>\<^verbatim>\<open>undo\<close> repeated \<open>n\<close> times, while that many undos are available.\<close>

lemma undo_step_mod:
  "((a::nat) mod MAX_UNDO + MAX_UNDO - 1) mod MAX_UNDO = (a + (MAX_UNDO - 1)) mod MAX_UNDO"
proof -
  have "a mod MAX_UNDO + MAX_UNDO - 1 = a mod MAX_UNDO + (MAX_UNDO - 1)"
    by (simp add: MAX_UNDO_def)
  then show ?thesis
    by (simp add: mod_add_left_eq)
qed

lemma undo_rec:
  "0 < u \<Longrightarrow> undo (h\<lparr>undo_avail := u, redo_avail := r, current := c mod MAX_UNDO\<rparr>) =
     h\<lparr>undo_avail := u - 1, redo_avail := r + 1,
       current := (c + (MAX_UNDO - 1)) mod MAX_UNDO\<rparr>"
  using undo_step_mod [of c] by (simp add: undo_def)

lemma undo_funpow:
  "n \<le> undo_avail h \<Longrightarrow> current h < MAX_UNDO \<Longrightarrow> (undo ^^ n) h =
     h\<lparr>undo_avail := undo_avail h - n, redo_avail := redo_avail h + n,
       current := (current h + n * (MAX_UNDO - 1)) mod MAX_UNDO\<rparr>"
proof (induction n)
  case 0
  then show ?case by simp
next
  case (Suc n)
  then have IH: "(undo ^^ n) h =
     h\<lparr>undo_avail := undo_avail h - n, redo_avail := redo_avail h + n,
       current := (current h + n * (MAX_UNDO - 1)) mod MAX_UNDO\<rparr>"
    by simp
  have e: "current h + n * (MAX_UNDO - 1) + (MAX_UNDO - 1) = current h + Suc n * (MAX_UNDO - 1)"
    by simp
  have "(undo ^^ Suc n) h = undo ((undo ^^ n) h)"
    by simp
  also have "\<dots> = h\<lparr>undo_avail := undo_avail h - Suc n, redo_avail := redo_avail h + Suc n,
       current := (current h + Suc n * (MAX_UNDO - 1)) mod MAX_UNDO\<rparr>"
    unfolding IH using Suc.prems
    by (subst undo_rec) (simp_all only: e, simp_all)
  finally show ?case .
qed

text \<open>What a committed move does to the counters: the undo count grows until it equals
  \<^verbatim>\<open>MAX_UNDO\<close>, the number of slots of the ring.\<close>

lemma history_move_counts:
  assumes "history_move dir anim h = Some (h', anim')" and "h' \<noteq> h"
  shows "undo_avail h' = (if undo_avail h < MAX_UNDO then undo_avail h + 1 else undo_avail h)"
    and "redo_avail h' = 0" and "current h' = (current h + 1) mod MAX_UNDO"
  using assms
  by (auto simp: history_move_def Let_def split: Option.bind_splits prod.splits if_splits)

text \<open>Claim C3: the undo and redo counts never add up to more than \<^verbatim>\<open>MAX_UNDO - 1\<close>.
  The code caps the undo count with \<^verbatim>\<open>if (undo_avail < MAX_UNDO) { ++undo_avail; }\<close>, one
  too late: a committed move from a history with 4095 undos available leaves 4096 of them,
  which is the number of slots of the ring, so the counts add up to more than
  \<^verbatim>\<open>MAX_UNDO - 1\<close>; 4096 undos from there walk once around the ring and end on the slot of
  the newest snapshot, with the board the move has just produced.\<close>

theorem undo_avail_reaches_capacity:
  "\<exists>h a. history_move 0 [] ex_long_history = Some (h, a) \<and>
     get_board h = [2, 2, 0, 0,  0, 0, 0, 0,  0, 1, 0, 0,  0, 0, 0, 0] \<and>
     undo_avail h = MAX_UNDO \<and> redo_avail h = 0 \<and>
     undo_avail h + redo_avail h > MAX_UNDO - 1 \<and>
     undo_avail ((undo ^^ 4096) h) = 0 \<and>
     get_board ((undo ^^ 4096) h) = get_board h"
proof -
  have "map_option (\<lambda>(h, a). (current h, undo_avail h, redo_avail h, get_board h))
     (history_move 0 [] ex_long_history) =
     Some (0, 4096, 0, [2, 2, 0, 0,  0, 0, 0, 0,  0, 1, 0, 0,  0, 0, 0, 0])"
    by code_simp
  then obtain h a where h: "history_move 0 [] ex_long_history = Some (h, a)"
    and c: "current h = 0" and u: "undo_avail h = 4096" and r: "redo_avail h = 0"
    and b: "get_board h = [2, 2, 0, 0,  0, 0, 0, 0,  0, 1, 0, 0,  0, 0, 0, 0]"
    by auto
  have "(undo ^^ 4096) h = h\<lparr>undo_avail := 0, redo_avail := 4096, current := 0\<rparr>"
    using undo_funpow [of 4096 h] c u r by (simp add: MAX_UNDO_def)
  then show ?thesis
    using h c u r b by (auto simp: MAX_UNDO_def get_board_def)
qed

section \<open>RNG::next_n for small bounds\<close>

text \<open>For a bound \<open>n \<le> 16\<close> the rejected draws are among the sixteen largest values. A draw
  computed from two such state words is not one of them, so the loop of \<^verbatim>\<open>next_n\<close> makes at
  most five draws.\<close>

lemma next32_draw:
  "next32 g = (draw_of (rng_x g) (rng_w g),
     \<lparr>rng_x = rng_y g, rng_y = rng_z g, rng_z = rng_w g, rng_w = draw_of (rng_x g) (rng_w g)\<rparr>)"
  by (simp add: next32_def draw_of_def Let_def)

lemma top16_all: "list_all (\<lambda>x. list_all (\<lambda>w. draw_of x w < 0xFFFFFFF0) top16) top16"
  by code_simp

lemma top16_mem:
  fixes x :: u32
  assumes "0xFFFFFFF0 \<le> x"
  shows "x \<in> set top16"
proof -
  have u: "4294967280 \<le> unat x" using assms by (simp add: word_le_nat_alt)
  have l: "unat x < 4294967296" using unsigned_less[of x, where ?'a = nat] by simp
  define a where "a = unat x - 4294967280"
  have a: "a < 16" using u l by (simp add: a_def)
  have "unat (0xFFFFFFF0 + of_nat a :: u32) = unat x"
    using a u by (simp add: a_def unat_word_ariths unat_of_nat)
  then have "x = 0xFFFFFFF0 + of_nat a" by (simp add: word_unat_eq_iff)
  then show ?thesis using a by (auto simp: top16_def)
qed

lemma draw_top:
  fixes x w :: u32
  assumes "0xFFFFFFF0 \<le> x" "0xFFFFFFF0 \<le> w"
  shows "draw_of x w < 0xFFFFFFF0"
  using top16_all top16_mem[OF assms(1)] top16_mem[OF assms(2)]
  by (auto simp: list_all_iff)

lemma next_n_draw_top:
  assumes r: "0xFFFFFFF0 \<le> r"
  shows "\<exists>v g'. next_n_draw r g = Some (v, g') \<and> v < r"
proof -
  define v1 where "v1 = draw_of (rng_x g) (rng_w g)"
  define v2 where "v2 = draw_of (rng_y g) v1"
  define v3 where "v3 = draw_of (rng_z g) v2"
  define v4 where "v4 = draw_of (rng_w g) v3"
  define v5 where "v5 = draw_of v1 v4"
  define g1 where "g1 = \<lparr>rng_x = rng_y g, rng_y = rng_z g, rng_z = rng_w g, rng_w = v1\<rparr>"
  define g2 where "g2 = \<lparr>rng_x = rng_z g, rng_y = rng_w g, rng_z = v1, rng_w = v2\<rparr>"
  define g3 where "g3 = \<lparr>rng_x = rng_w g, rng_y = v1, rng_z = v2, rng_w = v3\<rparr>"
  define g4 where "g4 = \<lparr>rng_x = v1, rng_y = v2, rng_z = v3, rng_w = v4\<rparr>"
  define g5 where "g5 = \<lparr>rng_x = v2, rng_y = v3, rng_z = v4, rng_w = v5\<rparr>"
  have n: "next32 g = (v1, g1)" "next32 g1 = (v2, g2)" "next32 g2 = (v3, g3)"
    "next32 g3 = (v4, g4)" "next32 g4 = (v5, g5)"
    by (simp_all add: next32_draw v1_def v2_def v3_def v4_def v5_def g1_def g2_def g3_def g4_def g5_def)
  have s: "next_n_draw r h = (case next32 h of (v, g') \<Rightarrow> if r \<le> v then next_n_draw r g' else Some (v, g'))" for h
    by (rule next_n_draw.simps)
  have last: "r \<le> v1 \<Longrightarrow> r \<le> v4 \<Longrightarrow> v5 < r"
  proof -
    assume "r \<le> v1" "r \<le> v4"
    then have "0xFFFFFFF0 \<le> v1" "0xFFFFFFF0 \<le> v4" using r by auto
    then have "v5 < 0xFFFFFFF0" unfolding v5_def by (rule draw_top)
    then show "v5 < r" using r by auto
  qed
  show ?thesis
  proof (cases "r \<le> v1")
    case False
    then show ?thesis using s[of g] n(1) by auto
  next
    case a1: True
    show ?thesis
    proof (cases "r \<le> v2")
      case False
      then show ?thesis using s[of g] s[of g1] n(1,2) a1 by auto
    next
      case a2: True
      show ?thesis
      proof (cases "r \<le> v3")
        case False
        then show ?thesis using s[of g] s[of g1] s[of g2] n(1,2,3) a1 a2 by auto
      next
        case a3: True
        show ?thesis
        proof (cases "r \<le> v4")
          case False
          then show ?thesis using s[of g] s[of g1] s[of g2] s[of g3] n(1,2,3,4) a1 a2 a3 by auto
        next
          case a4: True
          have "v5 < r" using last a1 a4 by simp
          then show ?thesis using s[of g] s[of g1] s[of g2] s[of g3] s[of g4] n a1 a2 a3 a4 by auto
        qed
      qed
    qed
  qed
qed

text \<open>The division of \<^verbatim>\<open>next_n\<close>: \<open>range\<close> is a multiple \<open>n * k\<close> of the bound, the
  divisor \<open>(range - 1) / n + 1\<close> is \<open>k\<close>, so an accepted draw gives a value below \<open>n\<close> and the
  second assertion holds.\<close>

lemma range_nat:
  fixes n :: nat
  assumes "0 < n" "n \<le> M"
  shows "v < M - M mod n \<Longrightarrow> v div ((M - M mod n - 1) div n + 1) < n"
proof -
  define k where "k = M div n"
  have k: "0 < k" using assms by (simp add: k_def div_greater_zero_iff)
  have R: "M - M mod n = n * k" by (simp add: k_def minus_mod_eq_mult_div)
  obtain j where j: "k = Suc j" using k by (cases k) auto
  obtain i where i: "n = Suc i" using assms(1) by (cases n) auto
  have "n * k - 1 = i + j * n" by (simp add: i j)
  then have "(n * k - 1) div n = (i + j * n) div n" by simp
  also have "\<dots> = j + i div n" using assms(1) by (simp only: div_mult_self1)
  also have "\<dots> = j" by (simp add: i)
  finally have d: "(M - M mod n - 1) div n + 1 = k" using R j by simp
  assume "v < M - M mod n"
  then have "v < n * k" using R by simp
  then have "v div k < n" using k by (simp add: less_mult_imp_div_less mult.commute)
  then show ?thesis using d by simp
qed

lemma unat_max32: "unat (UINT32_MAX) = 4294967295"
  by (simp add: UINT32_MAX_def unsigned_minus_1_eq_mask mask_eq_exp_minus_1)

lemma next_n_range_unat: "unat (next_n_range n) = 4294967295 - 4294967295 mod unat n"
proof -
  have "unat (UINT32_MAX mod n) \<le> unat UINT32_MAX"
    using unsigned_less[of "UINT32_MAX mod n", where ?'a = nat] by (simp add: unat_max32)
  then have "UINT32_MAX mod n \<le> UINT32_MAX" by (simp add: word_le_nat_alt)
  then have "unat (next_n_range n) = unat UINT32_MAX - unat (UINT32_MAX mod n)"
    unfolding next_n_range_def by (rule unat_sub)
  then show ?thesis by (simp add: unat_mod unat_max32)
qed

lemma next_n_result:
  assumes n: "n \<noteq> 0" and v: "v < next_n_range n"
  shows "v div ((next_n_range n - 1) div n + 1) < n"
proof -
  let ?R = "next_n_range n"
  have un: "0 < unat n" "unat n \<le> 4294967295" using n unsigned_less[of n, where ?'a = nat]
    by (simp_all add: unat_gt_0)
  have Rpos: "0 < unat ?R" using v by (simp add: word_less_nat_alt)
  have Rle: "unat ?R \<le> 4294967295" by (simp add: next_n_range_unat)
  have "unat (1::u32) \<le> unat ?R" using Rpos by simp
  then have "1 \<le> ?R" by (simp only: word_le_nat_alt)
  then have R1: "unat (?R - 1) = unat ?R - 1" by (simp add: unat_sub)
  have "(unat ?R - 1) div unat n \<le> unat ?R - 1" by (rule div_le_dividend)
  then have "(unat ?R - 1) div unat n + 1 < 4294967296" using Rle Rpos by linarith
  then have "unat ((?R - 1) div n) + unat (1::u32) < 2 ^ LENGTH(32)"
    by (simp add: unat_div R1)
  then have D: "unat ((?R - 1) div n + 1) = (unat ?R - 1) div unat n + 1"
    by (simp add: unat_add_lem[THEN iffD1] unat_div R1)
  have "unat v < 4294967295 - 4294967295 mod unat n" using v by (simp add: word_less_nat_alt next_n_range_unat)
  from range_nat[OF un this]
  have "unat v div unat ((?R - 1) div n + 1) < unat n" by (simp add: D next_n_range_unat)
  then show ?thesis by (simp add: word_less_nat_alt unat_div)
qed

lemma next_n_small:
  assumes "0 <s n" "n \<le> 16"
  shows "\<exists>v g'. next_n n g = Some (v, g') \<and> v < n"
proof -
  have n0: "n \<noteq> 0" using assms(1) by auto
  have un: "0 < unat n" "unat n \<le> 16" using n0 assms(2) by (simp_all add: unat_gt_0 word_le_nat_alt)
  have "4294967295 mod unat n < unat n" using un(1) by simp
  then have "4294967280 \<le> unat (next_n_range n)" using un(2) by (simp add: next_n_range_unat)
  then have "0xFFFFFFF0 \<le> next_n_range n" by (simp add: word_le_nat_alt)
  then obtain v g' where d: "next_n_draw (next_n_range n) g = Some (v, g')" and v: "v < next_n_range n"
    using next_n_draw_top by blast
  show ?thesis using assms(1) d next_n_result[OF n0 v] by (simp add: next_n_def)
qed

section \<open>Board::place\<close>

text \<open>The free list after a tile is placed on its slot \<open>w\<close> is the free list before with
  that slot removed and the later slots moved down: what the loop of \<^verbatim>\<open>place\<close> keeps in
  \<^verbatim>\<open>free\<close> is what \<^verbatim>\<open>count_free\<close> would compute again.\<close>

lemma filter_neq_nth:
  "distinct xs \<Longrightarrow> w < length xs \<Longrightarrow> filter (\<lambda>i. i \<noteq> xs ! w) xs = take w xs @ drop (Suc w) xs"
proof (induction xs arbitrary: w)
  case Nil
  then show ?case by simp
next
  case (Cons x xs)
  show ?case
  proof (cases w)
    case 0
    have "filter (\<lambda>i. i \<noteq> x) xs = xs" using Cons.prems(1) by (auto simp: filter_id_conv)
    then show ?thesis using 0 by simp
  next
    case (Suc w')
    have "x \<noteq> xs ! w'" using Cons.prems Suc by auto
    then show ?thesis using Cons.IH[of w'] Cons.prems Suc by simp
  qed
qed

lemma count_free_update:
  assumes len: "length st = NUM_TILES" and w: "w < length (count_free st)" and v: "v \<noteq> 0"
  shows "count_free (st[count_free st ! w := v]) = remove_slot w (count_free st)"
proof -
  let ?c = "count_free st ! w"
  have "?c \<in> set (count_free st)" using w by (rule nth_mem)
  then have c: "?c < length st" using len by (simp add: count_free_def)
  have "count_free (st[?c := v]) = filter (\<lambda>i. i \<noteq> ?c \<and> st ! i = 0) [0..<NUM_TILES]"
    unfolding count_free_def[of "st[?c := v]"] using v c
    by (intro filter_cong refl) (auto simp: nth_list_update)
  also have "\<dots> = filter (\<lambda>i. i \<noteq> ?c) (count_free st)"
    by (simp add: count_free_def conj_commute)
  also have "\<dots> = remove_slot w (count_free st)"
    unfolding remove_slot_def by (rule filter_neq_nth[OF _ w]) (simp add: count_free_def)
  finally show ?thesis .
qed

lemma count_free_length: "length (count_free st) \<le> 16"
  using length_filter_le[of "\<lambda>i. st ! i = 0" "[0..<NUM_TILES]"] by (simp add: count_free_def NUM_TILES_def)

lemma next_n_less: "next_n n g = Some (v, g') \<Longrightarrow> v < n"
  by (auto simp: next_n_def Let_def split: if_splits Option.bind_splits prod.splits)

lemma slot_less:
  assumes "next_n (of_nat (length free)) g = Some (which, g')" "length free \<le> 16"
  shows "unat which < length free"
proof -
  have "unat (of_nat (length free) :: u32) = length free"
    using assms(2) by (simp add: unat_of_nat)
  then show ?thesis using next_n_less[OF assms(1)] by (simp add: word_less_nat_alt)
qed

lemma place_loop_1:
  "place_loop (Suc 0) free st anim rng =
     (if free = [] then Some (st, anim, rng)
      else do {
        (r, rng) \<leftarrow> next_n 10 rng;
        let v = (if r < 9 then 1 else 2);
        (which, rng) \<leftarrow> next_n (of_nat (length free)) rng;
        let cell = free ! unat which;
        let anim = anim_call (New_tile cell v) anim;
        if anim_room anim then Some (st[cell := v], anim, rng) else None
      })"
  by (simp add: Let_def cong: if_cong)

lemma place_two:
  assumes len: "length st = NUM_TILES"
  shows "place 2 st anim rng = do { (st1, anim1, rng1) \<leftarrow> place 1 st anim rng; place 1 st1 anim1 rng1 }"
proof (cases "count_free st = []")
  case True
  then show ?thesis by (simp add: place_def numeral_2_eq_2)
next
  case False
  let ?F = "count_free st"
  show ?thesis
  proof (cases "next_n 10 rng")
    case None
    then show ?thesis using False by (simp add: place_def numeral_2_eq_2)
  next
    case (Some a)
    obtain r g1 where a: "a = (r, g1)" by (cases a)
    show ?thesis
    proof (cases "next_n (of_nat (length ?F)) g1")
      case None
      then show ?thesis using False Some a by (simp add: place_def numeral_2_eq_2)
    next
      case b: (Some b)
      obtain which g2 where bb: "b = (which, g2)" by (cases b)
      let ?v = "if r < 9 then 1 else 2 :: u8"
      have w: "unat which < length ?F" using b bb count_free_length slot_less by blast
      have cf: "count_free (st[?F ! unat which := ?v]) = remove_slot (unat which) ?F"
        by (rule count_free_update[OF len w]) simp
      show ?thesis using False Some a b bb cf
        by (simp add: place_def numeral_2_eq_2 Let_def del: place_loop.simps(2) add: place_loop.simps(2)[of "Suc 0"] place_loop_1)
    qed
  qed
qed

lemma remove_slot_length: "w < length free \<Longrightarrow> length (remove_slot w free) < length free"
  by (simp add: remove_slot_def)

lemma place_loop_defined:
  "length free \<le> 16 \<Longrightarrow> ntiles anim + k \<le> NUM_TILES * 2 \<Longrightarrow> nscores anim \<le> NUM_TILES \<Longrightarrow>
     \<exists>st' anim' rng'. place_loop k free st anim rng = Some (st', anim', rng')"
proof (induction k arbitrary: free st anim rng)
  case 0
  show ?case by simp
next
  case (Suc k)
  show ?case
  proof (cases "free = []")
    case True
    then show ?thesis by simp
  next
    case False
    have t: "0 <s (10::u32)" "(10::u32) \<le> 16" by (simp_all add: word_sless_alt)
    obtain r g1 where r: "next_n 10 rng = Some (r, g1)"
      using next_n_small[OF t, of rng] by auto
    let ?n = "of_nat (length free) :: u32"
    have u: "unat ?n = length free" using Suc.prems(1) by (simp add: unat_of_nat)
    have "0 < length free" using False by simp
    moreover have "sint ?n = int (length free)" using Suc.prems(1)
      by (simp add: signed_of_nat signed_take_bit_int_eq_self)
    ultimately have p: "0 <s ?n" by (simp add: word_sless_alt)
    have "?n \<le> 16" using Suc.prems(1) u by (simp add: word_le_nat_alt)
    then obtain which g2 where w: "next_n ?n g1 = Some (which, g2)"
      using next_n_small[OF p, of g1] by auto
    have wl: "unat which < length free" using w Suc.prems(1) by (rule slot_less)
    let ?v = "if r < 9 then 1 else 2 :: u8"
    let ?a = "anim_call (New_tile (free ! unat which) ?v) anim"
    have room: "anim_room ?a" "ntiles ?a + k \<le> NUM_TILES * 2" "nscores ?a \<le> NUM_TILES"
      using Suc.prems(2,3) by (simp_all add: anim_room_def)
    have "length (remove_slot (unat which) free) \<le> 16"
      using remove_slot_length[OF wl] Suc.prems(1) by simp
    from Suc.IH[OF this room(2,3)]
    show ?thesis using False r w room(1) by (simp add: Let_def)
  qed
qed

text \<open>
  Claim C5. \<^verbatim>\<open>place(2, anim, rng)\<close> gives the same board, animation state and generator
  as \<^verbatim>\<open>place(1, anim, rng)\<close> twice, for every board (with two free cells, or fewer), every
  generator and every animation state, also when a call does not return; and the call
  returns when the animation state has room for two more tiles (or is null).
\<close>

theorem place_two_is_place_twice:
  assumes "length st = NUM_TILES"
  shows "place 2 st anim rng =
      do { (st1, anim1, rng1) \<leftarrow> place 1 st anim rng; place 1 st1 anim1 rng1 } \<and>
    (ntiles anim + 2 \<le> NUM_TILES * 2 \<and> nscores anim \<le> NUM_TILES \<longrightarrow>
      (\<exists>st2 anim2 rng2. place 2 st anim rng = Some (st2, anim2, rng2)))"
proof -
  have "\<exists>st2 anim2 rng2. place 2 st anim rng = Some (st2, anim2, rng2)"
    if "ntiles anim + 2 \<le> NUM_TILES * 2" "nscores anim \<le> NUM_TILES"
    using place_loop_defined[OF count_free_length that, of st st rng] by (simp add: place_def)
  then show ?thesis using place_two[OF assms] by blast
qed

text \<open>Claim C5 at a board with eleven free cells, the generator seeded with 1.\<close>

theorem place_two_is_place_twice_witness:
  "do { (st1, anim1, rng1) \<leftarrow> place 1 ex_packed (Some []) (rng_reset 1); place 1 st1 anim1 rng1 } =
     Some ([1, 0, 0, 0,  2, 1, 1, 0,  0, 1, 0, 0,  3, 0, 0, 0], Some [New_tile 9 1, New_tile 6 1],
       \<lparr>rng_x = 2647401514, rng_y = 2363083495, rng_z = 2342633696, rng_w = 1318391540\<rparr>)"
proof -
  have "place 2 ex_packed (Some []) (rng_reset 1) =
     Some ([1, 0, 0, 0,  2, 1, 1, 0,  0, 1, 0, 0,  3, 0, 0, 0], Some [New_tile 9 1, New_tile 6 1],
       \<lparr>rng_x = 2647401514, rng_y = 2363083495, rng_z = 2342633696, rng_w = 1318391540\<rparr>)"
    by code_simp
  moreover have "length ex_packed = NUM_TILES" by (simp add: ex_packed_def NUM_TILES_def)
  ultimately show ?thesis
    using place_two_is_place_twice[of ex_packed "Some []" "rng_reset 1"] by simp
qed

end
